theory Spec2Isabelle
  imports Complex_Main "HOL-Library.Word"
begin

section \<open>Python strings\<close>

text \<open>
  A Python \<open>str\<close> is modelled as a \<open>string\<close>; a \<open>char\<close> stands for the code point
  of the same number (U+0000 to U+00FF). \<open>isspace\<close> and \<open>isalnum\<close> are Python's
  \<open>str.isspace\<close> and \<open>str.isalnum\<close> on these code points.
\<close>

definition isspace :: "char \<Rightarrow> bool" where
  "isspace c = (let n = (of_char c :: nat) in
     (9 \<le> n \<and> n \<le> 13) \<or> (28 \<le> n \<and> n \<le> 32) \<or> n = 133 \<or> n = 160)"

definition isalnum :: "char \<Rightarrow> bool" where
  "isalnum c = (let n = (of_char c :: nat) in
     (48 \<le> n \<and> n \<le> 57) \<or> (65 \<le> n \<and> n \<le> 90) \<or> (97 \<le> n \<and> n \<le> 122) \<or>
     n = 170 \<or> n = 178 \<or> n = 179 \<or> n = 181 \<or> n = 185 \<or> n = 186 \<or>
     (188 \<le> n \<and> n \<le> 190) \<or> (192 \<le> n \<and> n \<le> 214) \<or> (216 \<le> n \<and> n \<le> 246) \<or>
     248 \<le> n)"

text \<open>\<open>s.strip()\<close>: leading and trailing whitespace removed.\<close>

definition strip :: "string \<Rightarrow> string" where
  "strip s = rev (dropWhile isspace (rev (dropWhile isspace s)))"

text \<open>\<open>s.replace(' ', '')\<close>: every occurrence of the space character removed.\<close>

definition replace_space :: "string \<Rightarrow> string" where
  "replace_space s = filter (\<lambda>c. c \<noteq> CHR '' '') s"

text \<open>\<open>"".join(parts)\<close>.\<close>

definition join :: "string list \<Rightarrow> string" where
  "join parts = concat parts"

section \<open>OCR.py: the assembler (last line of \<open>extract_text\<close>)\<close>

text \<open>\<open>"".join(extracted_text).replace(' ', '').strip()\<close>\<close>

definition assemble :: "string list \<Rightarrow> string" where
  "assemble extracted_text = strip (replace_space (join extracted_text))"

text \<open>
  The assembler as the specification words it: the per-segment strings, each with its
  space characters removed, concatenated in order, then trimmed of whitespace at both ends.
\<close>

definition assemble_spec :: "string list \<Rightarrow> string" where
  "assemble_spec parts =
     (let s = concat (map (filter (\<lambda>c. c \<noteq> CHR '' '')) parts)
      in rev (dropWhile isspace (rev (dropWhile isspace s))))"

section \<open>Raster images\<close>

text \<open>
  An RGB image as PIL holds it: its size and its rows of pixels, each channel a byte.
  \<open>pixels img ! y ! x\<close> is the pixel in row \<open>y\<close> and column \<open>x\<close>.
\<close>

type_synonym pixel = "8 word \<times> 8 word \<times> 8 word"

record image =
  width :: nat
  height :: nat
  pixels :: "pixel list list"

definition wf_image :: "image \<Rightarrow> bool" where
  "wf_image img =
     (length (pixels img) = height img \<and>
      list_all (\<lambda>row. length row = width img) (pixels img))"

text \<open>
  \<open>image.crop((left, upper, right, lower))\<close>: the region's pixels; PIL fills what lies
  outside the source image with zeros. The callers below pass \<open>left \<le> right\<close> and
  \<open>upper \<le> lower\<close>.
\<close>

definition getpixel :: "image \<Rightarrow> nat \<Rightarrow> nat \<Rightarrow> pixel" where
  "getpixel img x y =
     (if x < width img \<and> y < height img then pixels img ! y ! x else (0, 0, 0))"

fun crop :: "image \<Rightarrow> nat \<times> nat \<times> nat \<times> nat \<Rightarrow> image" where
  "crop img (left, upper, right, lower) =
     \<lparr> width = right - left, height = lower - upper,
       pixels = map (\<lambda>y. map (\<lambda>x. getpixel img (left + x) (upper + y)) [0..<right - left])
                  [0..<lower - upper] \<rparr>"

section \<open>OCR.py: \<open>_trim_whitespace\<close>\<close>

text \<open>\<open>is_white = np.all(img_array == [255,255,255], axis=-1)\<close>\<close>

definition is_white :: "image \<Rightarrow> nat \<Rightarrow> nat \<Rightarrow> bool" where
  "is_white img y x = (pixels img ! y ! x = (255, 255, 255))"

text \<open>\<open>rows = np.where(~np.all(is_white, axis=1))[0]\<close>, and the same for the columns.\<close>

definition nonwhite_rows :: "image \<Rightarrow> nat list" where
  "nonwhite_rows img =
     filter (\<lambda>y. \<not> list_all (\<lambda>x. is_white img y x) [0..<width img]) [0..<height img]"

definition nonwhite_cols :: "image \<Rightarrow> nat list" where
  "nonwhite_cols img =
     filter (\<lambda>x. \<not> list_all (\<lambda>y. is_white img y x) [0..<height img]) [0..<width img]"

definition trim_whitespace :: "image \<Rightarrow> image" where
  "trim_whitespace img =
     (let rows = nonwhite_rows img; cols = nonwhite_cols img
      in if rows = [] \<or> cols = [] then img
         else let top = hd rows; bottom = last rows + 1;
                  left = hd cols; right = last cols + 1
              in crop img (left, top, right, bottom))"

section \<open>OCR.py: \<open>_segment_letters_by_projection\<close>\<close>

text \<open>
  \<open>image.convert('L')\<close>: PIL's integer form of the ITU-R 601-2 luma transform,
  \<open>(R * 19595 + G * 38470 + B * 7471 + 0x8000) >> 16\<close>.
\<close>

fun luma :: "pixel \<Rightarrow> nat" where
  "luma (r, g, b) = (unat r * 19595 + unat g * 38470 + unat b * 7471 + 32768) div 65536"

text \<open>
  \<open>binary = np.where(arr < 32, 0, 255)\<close> and \<open>vsum = np.sum(binary==0, axis=0)\<close>:
  for each column, the number of pixels whose brightness is below 32.
\<close>

definition vsum :: "image \<Rightarrow> nat list" where
  "vsum img =
     map (\<lambda>x. length (filter (\<lambda>y. luma (pixels img ! y ! x) < 32) [0..<height img]))
       [0..<width img]"

text \<open>
  The loop \<open>for x, count in enumerate(vsum)\<close>, with its variables \<open>parts\<close> and \<open>start\<close>
  (Python's \<open>None\<close> is \<open>None\<close>, a column \<open>s\<close> is \<open>Some s\<close>); \<open>x\<close> is the index of the head
  of the remaining columns. \<open>x - start\<close> is never negative, \<open>start\<close> being an earlier column.
\<close>

fun seg_loop :: "image \<Rightarrow> nat \<Rightarrow> nat list \<Rightarrow> image list \<times> nat option \<Rightarrow> image list \<times> nat option" where
  "seg_loop img x [] (parts, start) = (parts, start)"
| "seg_loop img x (count # rest) (parts, start) =
     (if count > 0 \<and> start = None then seg_loop img (x + 1) rest (parts, Some x)
      else if count = 0 \<and> start \<noteq> None then
        (case start of
           Some s \<Rightarrow>
             if x - s \<ge> 5
             then seg_loop img (x + 1) rest
                    (parts @ [crop img (s, 0, x, height img)], None)
             else seg_loop img (x + 1) rest (parts, None)
         | None \<Rightarrow> seg_loop img (x + 1) rest (parts, start))
      else seg_loop img (x + 1) rest (parts, start))"

definition segment_letters_by_projection :: "image \<Rightarrow> image list" where
  "segment_letters_by_projection img =
     (let v = vsum img;
          (parts, start) = seg_loop img 0 v ([], None)
      in case start of
           Some s \<Rightarrow>
             if length v - s \<ge> 5 then parts @ [crop img (s, 0, length v, height img)]
             else parts
         | None \<Rightarrow> parts)"

text \<open>
  The column intervals \<open>(start, x)\<close> that the same loop hands to \<open>crop\<close>, kept as
  numbers: the loop above with the crop left out.
\<close>

fun box_loop :: "nat \<Rightarrow> nat list \<Rightarrow> (nat \<times> nat) list \<times> nat option \<Rightarrow> (nat \<times> nat) list \<times> nat option" where
  "box_loop x [] (boxes, start) = (boxes, start)"
| "box_loop x (count # rest) (boxes, start) =
     (if count > 0 \<and> start = None then box_loop (x + 1) rest (boxes, Some x)
      else if count = 0 \<and> start \<noteq> None then
        (case start of
           Some s \<Rightarrow>
             if x - s \<ge> 5 then box_loop (x + 1) rest (boxes @ [(s, x)], None)
             else box_loop (x + 1) rest (boxes, None)
         | None \<Rightarrow> box_loop (x + 1) rest (boxes, start))
      else box_loop (x + 1) rest (boxes, start))"

definition segment_boxes :: "nat list \<Rightarrow> (nat \<times> nat) list" where
  "segment_boxes v =
     (let (boxes, start) = box_loop 0 v ([], None)
      in case start of
           Some s \<Rightarrow> if length v - s \<ge> 5 then boxes @ [(s, length v)] else boxes
         | None \<Rightarrow> boxes)"

text \<open>
  A maximal run of inked columns, in the specification's words: columns \<open>s\<close> up to
  \<open>e\<close> (exclusive) all have a non-zero count, the column before \<open>s\<close> (if any) and the
  column \<open>e\<close> (if inside the image) have count zero.
\<close>

definition is_run :: "nat list \<Rightarrow> nat \<Rightarrow> nat \<Rightarrow> bool" where
  "is_run v s e =
     (s < e \<and> e \<le> length v \<and> (\<forall>i \<in> {s..<e}. v ! i > 0) \<and>
      (s = 0 \<or> v ! (s - 1) = 0) \<and> (e = length v \<or> v ! e = 0))"

section \<open>OCR.py: \<open>_recognize_with_rotations\<close>\<close>

datatype exn = TimeoutException | NoSuchElementException | TesseractError | OtherException

text \<open>
  A Python \<open>float\<close>: a finite value, an infinity or NaN. \<open>float_gt a b\<close> is \<open>a > b\<close>,
  false whenever either side is NaN.
\<close>

datatype pyfloat = Fin real | PosInf | NegInf | NaN

fun float_gt :: "pyfloat \<Rightarrow> pyfloat \<Rightarrow> bool" where
  "float_gt NaN b = False"
| "float_gt a NaN = False"
| "float_gt (Fin a) (Fin b) = (a > b)"
| "float_gt PosInf PosInf = False"
| "float_gt PosInf b = True"
| "float_gt a PosInf = False"
| "float_gt NegInf b = False"
| "float_gt a NegInf = True"

text \<open>
  An entry of \<open>data["conf"]\<close>, as \<open>float(conf)\<close> sees it: either a value that converts to
  the given float, or one on which \<open>float\<close> raises.
\<close>

datatype conf_value = Conf pyfloat | Unparsable

fun float_py :: "conf_value \<Rightarrow> pyfloat option" where
  "float_py (Conf f) = Some f"
| "float_py Unparsable = None"

text \<open>The dictionary \<open>pytesseract.image_to_data\<close> returns: its "text" and "conf" columns.\<close>

record ocr_data =
  data_text :: "string list"
  data_conf :: "conf_value list"

text \<open>
  The recognition capability: \<open>ocr img ang\<close> is the outcome of
  \<open>pytesseract.image_to_data(image.rotate(ang, expand=True, fillcolor=white), config)\<close>,
  an exception or the dictionary.
\<close>

type_synonym ocr = "image \<Rightarrow> int \<Rightarrow> exn + ocr_data"

definition angles :: "int list" where
  "angles = [-30, -15, 15, 30]"

text \<open>
  The inner loop \<open>for txt, conf in zip(data["text"], data["conf"])\<close>, returning
  \<open>(best_char, best_conf)\<close> as it stands when the loop is left.
\<close>

fun scan_pairs :: "(string \<times> conf_value) list \<Rightarrow> string \<times> pyfloat \<Rightarrow> string \<times> pyfloat" where
  "scan_pairs [] (best_char, best_conf) = (best_char, best_conf)"
| "scan_pairs ((txt, conf) # rest) (best_char, best_conf) =
     (let txt = strip txt
      in if txt = [] then scan_pairs rest (best_char, best_conf)
         else case float_py conf of
                None \<Rightarrow> scan_pairs rest (best_char, best_conf)
              | Some c_conf \<Rightarrow>
                  if float_gt c_conf best_conf then (txt, c_conf) else (best_char, best_conf))"

text \<open>The outer loop \<open>for ang in angles\<close>; an exception of the capability leaves it.\<close>

fun angle_loop :: "ocr \<Rightarrow> image \<Rightarrow> int list \<Rightarrow> string \<times> pyfloat \<Rightarrow> exn + string \<times> pyfloat" where
  "angle_loop ocr img [] best = Inr best"
| "angle_loop ocr img (ang # rest) best =
     (case ocr img ang of
        Inl e \<Rightarrow> Inl e
      | Inr data \<Rightarrow>
          angle_loop ocr img rest (scan_pairs (zip (data_text data) (data_conf data)) best))"

definition recognize_with_rotations :: "ocr \<Rightarrow> image \<Rightarrow> exn + string" where
  "recognize_with_rotations ocr img =
     (case angle_loop ocr img angles ('''', Fin (- 1)) of
        Inl e \<Rightarrow> Inl e
      | Inr (best_char, best_conf) \<Rightarrow> Inr best_char)"

text \<open>
  The specification's words for one angle: the first pair whose trimmed text is not empty
  and whose confidence parses is accepted, with its trimmed text and parsed confidence.
\<close>

fun usable :: "string \<times> conf_value \<Rightarrow> bool" where
  "usable (txt, conf) = (strip txt \<noteq> [] \<and> float_py conf \<noteq> None)"

definition first_accepted :: "(string \<times> conf_value) list \<Rightarrow> (string \<times> pyfloat) option" where
  "first_accepted pairs =
     (case find usable pairs of
        Some (txt, Conf f) \<Rightarrow> Some (strip txt, f)
      | _ \<Rightarrow> None)"

definition accepted_at :: "ocr \<Rightarrow> image \<Rightarrow> int \<Rightarrow> (string \<times> pyfloat) option" where
  "accepted_at ocr img ang =
     (case ocr img ang of
        Inl e \<Rightarrow> None
      | Inr data \<Rightarrow> first_accepted (zip (data_text data) (data_conf data)))"

text \<open>The accepted pairs of the four angles, in the order the angles are tried.\<close>

definition accepted :: "ocr \<Rightarrow> image \<Rightarrow> (string \<times> pyfloat) list" where
  "accepted ocr img = List.map_filter (accepted_at ocr img) angles"

text \<open>
  Entry \<open>i\<close> of a list of accepted pairs is the best one: no entry has a greater
  confidence, and every earlier entry has a strictly smaller one.
\<close>

definition is_best :: "(string \<times> pyfloat) list \<Rightarrow> nat \<Rightarrow> bool" where
  "is_best acc i =
     (i < length acc \<and>
      (\<forall>j < length acc. \<not> float_gt (snd (acc ! j)) (snd (acc ! i))) \<and>
      (\<forall>j < i. float_gt (snd (acc ! i)) (snd (acc ! j))))"

text \<open>The accepted pairs whose confidence is above the initial \<open>best_conf = -1.0\<close>.\<close>

definition above_sentinel :: "(string \<times> pyfloat) list \<Rightarrow> (string \<times> pyfloat) list" where
  "above_sentinel acc = filter (\<lambda>p. float_gt (snd p) (Fin (- 1))) acc"

section \<open>OCR.py: \<open>extract_text\<close>\<close>

text \<open>The loop over \<open>parts\<close>, appending each recognized string to \<open>extracted_text\<close>.\<close>

fun parts_loop :: "ocr \<Rightarrow> image list \<Rightarrow> string list \<Rightarrow> exn + string list" where
  "parts_loop ocr [] extracted_text = Inr extracted_text"
| "parts_loop ocr (part # rest) extracted_text =
     (case recognize_with_rotations ocr part of
        Inl e \<Rightarrow> Inl e
      | Inr ch \<Rightarrow> parts_loop ocr rest (extracted_text @ [ch]))"

text \<open>
  \<open>path_exists\<close> is \<open>os.path.exists(self.image_path)\<close> and \<open>opened\<close> the outcome of
  \<open>Image.open(self.image_path).convert('RGB')\<close>. The \<open>try\<close> block holds the opening
  and the trimming; segmentation and recognition come after it.
\<close>

definition extract_text :: "bool \<Rightarrow> exn + image \<Rightarrow> ocr \<Rightarrow> exn + string" where
  "extract_text path_exists opened ocr =
     (if \<not> path_exists then Inr ''''
      else case (case opened of Inl e \<Rightarrow> Inl e | Inr img \<Rightarrow> Inr (trim_whitespace img)) of
             Inl e \<Rightarrow> Inr ''''
           | Inr img \<Rightarrow>
               (case parts_loop ocr (segment_letters_by_projection img) [] of
                  Inl e \<Rightarrow> Inl e
                | Inr extracted_text \<Rightarrow> Inr (assemble extracted_text)))"

section \<open>amazon_scraper.py: \<open>_solve_captcha\<close>\<close>

text \<open>
  What the browser and the extractor answer during one attempt, one field for each call
  the loop body can make: an exception or a normal return. The calls are, in order,
  \<open>wait.until(presence_of_element_located(img))\<close>, \<open>os.makedirs\<close> with
  \<open>captcha_img.screenshot\<close>, \<open>extractor.extract_text()\<close>, \<open>find_element\<close> of the
  refresh icon and its \<open>click\<close>, \<open>find_element\<close> of the input field, its \<open>clear\<close>
  and \<open>send_keys\<close>, \<open>find_element\<close> of the submit button and its \<open>click\<close>, and the
  last \<open>find_element\<close> of the input field.
\<close>

record observation =
  wait_captcha_img :: "exn + unit"
  take_screenshot :: "exn + unit"
  extracted :: "exn + string"
  find_refresh :: "exn + unit"
  click_refresh :: "exn + unit"
  find_input :: "exn + unit"
  clear_input :: "exn + unit"
  send_keys :: "exn + unit"
  find_submit :: "exn + unit"
  click_submit :: "exn + unit"
  find_still :: "exn + unit"

text \<open>The calls made, in the order they are made; \<open>LogAttempt\<close> is the log line that opens an attempt.\<close>

datatype event =
  LogAttempt int | WaitImg | Screenshot int | ExtractText | FindRefresh | ClickRefresh |
  FindInput | ClearInput | SendKeys string | FindSubmit | ClickSubmit | FindStill

text \<open>How the loop body ends: \<open>return b\<close>, or on to the next iteration.\<close>

datatype flow = Return bool | Continue

text \<open>One call followed by the rest of the body; an exception ends the body there.\<close>

definition call :: "event \<Rightarrow> exn + 'a \<Rightarrow> ('a \<Rightarrow> (exn + flow) \<times> event list) \<Rightarrow> (exn + flow) \<times> event list" where
  "call ev outcome rest =
     (case outcome of
        Inl e \<Rightarrow> (Inl e, [ev])
      | Inr v \<Rightarrow> (case rest v of (r, evs) \<Rightarrow> (r, ev # evs)))"

text \<open>Lines 109 to 132: enter the text, submit, and look whether the input field is still there.\<close>

definition submit_and_verify :: "string \<Rightarrow> observation \<Rightarrow> (exn + flow) \<times> event list" where
  "submit_and_verify captcha_text ob =
     call FindInput (find_input ob) (\<lambda>_.
     call ClearInput (clear_input ob) (\<lambda>_.
     call (SendKeys captcha_text) (send_keys ob) (\<lambda>_.
     call FindSubmit (find_submit ob) (\<lambda>_.
     call ClickSubmit (click_submit ob) (\<lambda>_.
       (case find_still ob of
          Inr _ \<Rightarrow> (Inr Continue, [FindStill])
        | Inl NoSuchElementException \<Rightarrow> (Inr (Return True), [FindStill])
        | Inl e \<Rightarrow> (Inl e, [FindStill])))))))"

text \<open>
  Lines 101 to 107: the inner \<open>try\<close> around the refresh; \<open>NoSuchElementException\<close> is
  caught there and the body goes on, \<open>None\<close> standing for that fall-through.
\<close>

definition try_refresh :: "observation \<Rightarrow> (exn + flow) option \<times> event list" where
  "try_refresh ob =
     (case find_refresh ob of
        Inl NoSuchElementException \<Rightarrow> (None, [FindRefresh])
      | Inl e \<Rightarrow> (Some (Inl e), [FindRefresh])
      | Inr _ \<Rightarrow>
          (case click_refresh ob of
             Inl NoSuchElementException \<Rightarrow> (None, [FindRefresh, ClickRefresh])
           | Inl e \<Rightarrow> (Some (Inl e), [FindRefresh, ClickRefresh])
           | Inr _ \<Rightarrow> (Some (Inr Continue), [FindRefresh, ClickRefresh])))"

text \<open>Lines 97 to 132, from \<open>if not captcha_text\<close> on.\<close>

definition after_extraction :: "int \<Rightarrow> int \<Rightarrow> string \<Rightarrow> observation \<Rightarrow> (exn + flow) \<times> event list" where
  "after_extraction max_attempts attempt captcha_text ob =
     (if captcha_text = [] \<and> attempt < max_attempts then
        (case try_refresh ob of
           (Some r, evs) \<Rightarrow> (r, evs)
         | (None, evs) \<Rightarrow>
             (case submit_and_verify captcha_text ob of (r, evs') \<Rightarrow> (r, evs @ evs')))
      else submit_and_verify captcha_text ob)"

text \<open>The body of the outer \<open>try\<close> (lines 71 to 132); \<open>Inl\<close> is an exception that reaches the outer \<open>except\<close>.\<close>

definition try_body :: "int \<Rightarrow> int \<Rightarrow> observation \<Rightarrow> (exn + flow) \<times> event list" where
  "try_body max_attempts attempt ob =
     (case wait_captcha_img ob of
        Inl TimeoutException \<Rightarrow> (Inr (Return True), [LogAttempt attempt, WaitImg])
      | Inl e \<Rightarrow> (Inl e, [LogAttempt attempt, WaitImg])
      | Inr _ \<Rightarrow>
          (case call (Screenshot attempt) (take_screenshot ob) (\<lambda>_.
                call ExtractText (extracted ob) (\<lambda>text.
                  after_extraction max_attempts attempt (filter isalnum text) ob)) of
             (r, evs) \<Rightarrow> (r, [LogAttempt attempt, WaitImg] @ evs)))"

text \<open>One iteration with the outer \<open>except Exception\<close> (lines 134 to 138).\<close>

definition attempt_body :: "int \<Rightarrow> int \<Rightarrow> observation \<Rightarrow> flow \<times> event list" where
  "attempt_body max_attempts attempt ob =
     (case try_body max_attempts attempt ob of
        (Inl e, evs) \<Rightarrow> (if attempt \<ge> max_attempts then Return False else Continue, evs)
      | (Inr f, evs) \<Rightarrow> (f, evs))"

text \<open>\<open>for attempt in range(1, max_attempts + 1)\<close>, then \<open>return False\<close>.\<close>

fun attempts_loop :: "int \<Rightarrow> (int \<Rightarrow> observation) \<Rightarrow> int list \<Rightarrow> bool \<times> event list" where
  "attempts_loop max_attempts env [] = (False, [])"
| "attempts_loop max_attempts env (attempt # rest) =
     (case attempt_body max_attempts attempt (env attempt) of
        (Return b, evs) \<Rightarrow> (b, evs)
      | (Continue, evs) \<Rightarrow>
          (case attempts_loop max_attempts env rest of (b, evs') \<Rightarrow> (b, evs @ evs')))"

definition solve_captcha :: "(int \<Rightarrow> observation) \<Rightarrow> int \<Rightarrow> bool \<times> event list" where
  "solve_captcha env max_attempts = attempts_loop max_attempts env [1..max_attempts]"

text \<open>The attempts a run started, read off its log lines.\<close>

fun attempts_of :: "event list \<Rightarrow> int list" where
  "attempts_of [] = []"
| "attempts_of (LogAttempt n # evs) = n # attempts_of evs"
| "attempts_of (ev # evs) = attempts_of evs"

text \<open>An observation in which every call returns normally and the extractor gives \<open>text\<close>.\<close>

definition all_ok :: "string \<Rightarrow> observation" where
  "all_ok text =
     \<lparr> wait_captcha_img = Inr (), take_screenshot = Inr (), extracted = Inr text,
       find_refresh = Inr (), click_refresh = Inr (), find_input = Inr (),
       clear_input = Inr (), send_keys = Inr (), find_submit = Inr (),
       click_submit = Inr (), find_still = Inr () \<rparr>"

text \<open>The calls of one full cycle: detect, capture, recognize, submit, verify.\<close>

definition full_cycle :: "string \<Rightarrow> int \<Rightarrow> event list" where
  "full_cycle captcha_text attempt =
     [LogAttempt attempt, WaitImg, Screenshot attempt, ExtractText, FindInput, ClearInput,
      SendKeys captcha_text, FindSubmit, ClickSubmit, FindStill]"

text \<open>
  A page whose captcha never yields any text and has no refresh icon; every other call
  returns normally.
\<close>

definition env_empty_text :: "int \<Rightarrow> observation" where
  "env_empty_text attempt = (all_ok '''')\<lparr> find_refresh := Inl NoSuchElementException \<rparr>"

section \<open>The recognizer: the comparison step and sample capabilities\<close>

text \<open>Line 97, \<open>if c_conf > best_conf\<close>: the pair that is kept when \<open>p\<close> is accepted.\<close>

definition keep_better :: "string \<times> pyfloat \<Rightarrow> string \<times> pyfloat \<Rightarrow> string \<times> pyfloat" where
  "keep_better best p = (if float_gt (snd p) (snd best) then p else best)"

text \<open>The pairs of a list whose confidence is greater than \<open>c0\<close>.\<close>

definition above :: "pyfloat \<Rightarrow> (string \<times> pyfloat) list \<Rightarrow> (string \<times> pyfloat) list" where
  "above c0 acc = filter (\<lambda>p. float_gt (snd p) c0) acc"

text \<open>A segment to recognize: five black pixels in a row.\<close>

definition black5 :: image where
  "black5 = \<lparr> width = 5, height = 1, pixels = [[(0, 0, 0), (0, 0, 0), (0, 0, 0), (0, 0, 0), (0, 0, 0)]] \<rparr>"

text \<open>Recognition capabilities that answer with fixed tables, whatever the image.\<close>

definition no_data :: ocr_data where
  "no_data = \<lparr> data_text = [], data_conf = [] \<rparr>"

definition ocr_ties :: ocr where
  "ocr_ties img ang =
     (if ang = - 30 then
        Inr \<lparr> data_text = ['''', '' A '', ''B'', ''C''],
              data_conf = [Conf (Fin 99), Unparsable, Conf (Fin 80), Conf (Fin 99)] \<rparr>
      else if ang = - 15 then Inr \<lparr> data_text = [''D''], data_conf = [Conf (Fin 90)] \<rparr>
      else if ang = 15 then Inr \<lparr> data_text = [''E''], data_conf = [Conf (Fin 90)] \<rparr>
      else Inr no_data)"

definition ocr_late :: ocr where
  "ocr_late img ang =
     (if ang = - 15 then Inr \<lparr> data_text = [''Q''], data_conf = [Conf (Fin 0)] \<rparr>
      else Inr no_data)"

definition ocr_then_fails :: ocr where
  "ocr_then_fails img ang =
     (if ang = - 30 then Inr \<lparr> data_text = [''A''], data_conf = [Conf (Fin 90)] \<rparr>
      else Inl TesseractError)"

definition ocr_two :: ocr where
  "ocr_two img ang = Inr \<lparr> data_text = [''AB''], data_conf = [Conf (Fin 90)] \<rparr>"

text \<open>A recognition capability that raises on every call.\<close>

definition ocr_fails :: ocr where
  "ocr_fails img ang = Inl TesseractError"

section \<open>The segmenter: intervals and sample images\<close>

text \<open>The crop the loop makes for a column interval: full height, columns \<open>s\<close> to \<open>e\<close>.\<close>

fun box_crop :: "image \<Rightarrow> nat \<times> nat \<Rightarrow> image" where
  "box_crop img (s, e) = crop img (s, 0, e, height img)"

text \<open>Lines 58 and 59: the interval of a run still open after the last column of \<open>n\<close>.\<close>

fun final_box :: "nat \<Rightarrow> nat option \<Rightarrow> (nat \<times> nat) list" where
  "final_box n None = []"
| "final_box n (Some s) = (if n - s \<ge> 5 then [(s, n)] else [])"

text \<open>
  The intervals produced from column \<open>x\<close> on, the loop being in state \<open>st\<close> there:
  those of the remaining columns, then the one of the open run.
\<close>

definition boxes_from :: "nat \<Rightarrow> nat list \<Rightarrow> nat option \<Rightarrow> (nat \<times> nat) list" where
  "boxes_from x cs st =
     (case box_loop x cs ([], st) of (bs, st') \<Rightarrow> bs @ final_box (x + length cs) st')"

text \<open>
  What \<open>start\<close> means once the columns \<open>pre\<close> have been scanned: \<open>None\<close> when the
  last column scanned has no ink, otherwise the first column of the inked run that reaches
  the last column scanned.
\<close>

definition open_run :: "nat list \<Rightarrow> nat option \<Rightarrow> bool" where
  "open_run pre st =
     (case st of
        None \<Rightarrow> pre = [] \<or> last pre = 0
      | Some s \<Rightarrow> s < length pre \<and> (\<forall>i \<in> {s..<length pre}. pre ! i > 0) \<and>
                  (s = 0 \<or> pre ! (s - 1) = 0))"

text \<open>Pixels just below and at the threshold, and a one-row image with three runs of dark columns.\<close>

definition dark :: pixel where "dark = (31, 31, 31)"

definition light :: pixel where "light = (32, 32, 32)"

definition strip15 :: image where
  "strip15 = \<lparr> width = 15, height = 1,
       pixels = [[dark, dark, dark, dark, dark, light, dark, dark, light,
                  dark, dark, dark, dark, dark, dark]] \<rparr>"

section \<open>The trimmer: border lines and sample images\<close>

text \<open>
  Entry \<open>y\<close> of \<open>~np.all(is_white, axis=1)\<close> and entry \<open>x\<close> of
  \<open>~np.all(is_white, axis=0)\<close>: the row, or the column, has a pixel that is not white.
\<close>

definition row_nonwhite :: "image \<Rightarrow> nat \<Rightarrow> bool" where
  "row_nonwhite img y = (\<not> list_all (\<lambda>x. is_white img y x) [0..<width img])"

definition col_nonwhite :: "image \<Rightarrow> nat \<Rightarrow> bool" where
  "col_nonwhite img x = (\<not> list_all (\<lambda>y. is_white img y x) [0..<height img])"

text \<open>
  An already trimmed image: it is not empty and none of its four border lines (first and
  last row, first and last column) is pure white.
\<close>

definition no_white_border :: "image \<Rightarrow> bool" where
  "no_white_border img =
     (0 < width img \<and> 0 < height img \<and>
      row_nonwhite img 0 \<and> row_nonwhite img (height img - 1) \<and>
      col_nonwhite img 0 \<and> col_nonwhite img (width img - 1))"

text \<open>A white frame around two pixels that are not white, and an all-white image.\<close>

definition white :: pixel where "white = (255, 255, 255)"

definition framed :: image where
  "framed = \<lparr> width = 4, height = 3,
       pixels = [[white, white, white, white],
                 [white, (0, 0, 0), (255, 255, 254), white],
                 [white, white, white, white]] \<rparr>"

definition white2 :: image where
  "white2 = \<lparr> width = 2, height = 2, pixels = [[white, white], [white, white]] \<rparr>"

section \<open>Facts about strings\<close>

lemma isspace_space: "isspace CHR '' ''"
  by (simp add: isspace_def)

lemma strip_Nil: "strip [] = []"
  by (simp add: strip_def)

lemma strip_subset: "set (strip s) \<subseteq> set s"
  by (auto simp: strip_def dest!: set_dropWhileD)

lemma strip_hd: "strip s \<noteq> [] \<Longrightarrow> \<not> isspace (hd (strip s))"
proof -
  assume ne: "strip s \<noteq> []"
  let ?d = "dropWhile isspace s"
  let ?e = "dropWhile isspace (rev ?d)"
  have e: "strip s = rev ?e" by (simp add: strip_def)
  from ne e have ene: "?e \<noteq> []" by simp
  have dne: "?d \<noteq> []"
  proof
    assume "?d = []"
    with ene show False by simp
  qed
  have "hd (rev ?e) = last ?e" using ene by (simp add: hd_rev)
  also have "last ?e = last (rev ?d)"
    using ene by (metis (no_types) takeWhile_dropWhile_id last_appendR)
  also have "\<dots> = hd ?d" using dne by (simp add: last_rev)
  finally have "hd (strip s) = hd ?d" using e by simp
  moreover have "\<not> isspace (hd ?d)" using dne by (rule hd_dropWhile)
  ultimately show ?thesis by simp
qed

lemma strip_last: "strip s \<noteq> [] \<Longrightarrow> \<not> isspace (last (strip s))"
proof -
  assume ne: "strip s \<noteq> []"
  let ?e = "dropWhile isspace (rev (dropWhile isspace s))"
  have e: "strip s = rev ?e" by (simp add: strip_def)
  from ne e have ene: "?e \<noteq> []" by simp
  have "last (rev ?e) = hd ?e" using ene by (simp add: last_rev)
  moreover have "\<not> isspace (hd ?e)" using ene by (rule hd_dropWhile)
  ultimately show ?thesis using e by simp
qed

section \<open>The assembler\<close>

text \<open>
  C9. For every ordered sequence of per-segment strings the assembler returns their
  concatenation in order with every space character removed and whitespace trimmed at
  both ends: it agrees with the specification's wording, its result holds no space and
  neither starts nor ends with whitespace, the sequence "A", "", "B", " " gives "AB",
  and a sequence of empty strings (or no strings) gives the empty string.
\<close>

theorem assemble_concat_no_space_trimmed:
  "assemble parts = assemble_spec parts
   \<and> CHR '' '' \<notin> set (assemble parts)
   \<and> (assemble parts \<noteq> [] \<longrightarrow>
        \<not> isspace (hd (assemble parts)) \<and> \<not> isspace (last (assemble parts)))
   \<and> assemble [''A'', '''', ''B'', '' ''] = ''AB''
   \<and> ((\<forall>p \<in> set parts. p = []) \<longrightarrow> assemble parts = [])"
proof -
  have a: "assemble parts = assemble_spec parts"
    by (simp add: assemble_def assemble_spec_def strip_def replace_space_def join_def
        filter_concat)
  have b: "CHR '' '' \<notin> set (assemble parts)"
    using strip_subset[of "replace_space (join parts)"]
    by (auto simp: assemble_def replace_space_def)
  have c: "assemble parts \<noteq> [] \<longrightarrow>
        \<not> isspace (hd (assemble parts)) \<and> \<not> isspace (last (assemble parts))"
    by (simp add: assemble_def strip_hd strip_last)
  have d: "assemble [''A'', '''', ''B'', '' ''] = ''AB''"
    by (simp add: assemble_def strip_def replace_space_def join_def isspace_def)
  have e: "(\<forall>p \<in> set parts. p = []) \<longrightarrow> assemble parts = []"
  proof
    assume "\<forall>p \<in> set parts. p = []"
    then have "join parts = []" by (simp add: join_def)
    then show "assemble parts = []"
      by (simp add: assemble_def replace_space_def strip_Nil)
  qed
  from a b c d e show ?thesis by blast
qed

theorem assemble_concat_no_space_trimmed_witness:
  "assemble [''X '', '' Y'', ''Z''] = assemble_spec [''X '', '' Y'', ''Z'']
   \<and> assemble [''X '', '' Y'', ''Z''] = ''XYZ''
   \<and> assemble [''X '', '' Y'', ''Z''] \<noteq> []
   \<and> \<not> isspace (hd (assemble [''X '', '' Y'', ''Z'']))
   \<and> \<not> isspace (last (assemble [''X '', '' Y'', ''Z'']))
   \<and> assemble ['''', ''''] = []"
proof -
  let ?xs = "[''X '', '' Y'', ''Z'']"
  let ?es = "['''', '''' :: string]"
  have v: "assemble ?xs = ''XYZ''"
    by (simp add: assemble_def strip_def replace_space_def join_def isspace_def)
  then have ne: "assemble ?xs \<noteq> []" by simp
  have e: "\<forall>p \<in> set ?es. p = []" by simp
  note t = assemble_concat_no_space_trimmed[of ?xs]
  note u = assemble_concat_no_space_trimmed[of ?es]
  have a: "assemble ?xs = assemble_spec ?xs" by (rule t[THEN conjunct1])
  have hl: "\<not> isspace (hd (assemble ?xs)) \<and> \<not> isspace (last (assemble ?xs))"
    by (rule mp[OF t[THEN conjunct2, THEN conjunct2, THEN conjunct1] ne])
  have z: "assemble ?es = []"
    by (rule mp[OF u[THEN conjunct2, THEN conjunct2, THEN conjunct2, THEN conjunct2] e])
  show ?thesis
    by (intro conjI a v ne hl[THEN conjunct1] hl[THEN conjunct2] z)
qed

section \<open>The solve-retry controller\<close>

lemma attempts_of_append: "attempts_of (xs @ ys) = attempts_of xs @ attempts_of ys"
  by (induction xs rule: attempts_of.induct) auto

lemma call_no_log:
  assumes "\<And>n. ev \<noteq> LogAttempt n" "\<And>v. attempts_of (snd (rest v)) = []"
  shows "attempts_of (snd (call ev outcome rest)) = []"
proof (cases outcome)
  case (Inl e)
  then show ?thesis using assms(1) by (cases ev) (auto simp: call_def)
next
  case (Inr v)
  obtain r evs where rv: "rest v = (r, evs)" by (cases "rest v")
  then have "attempts_of evs = []" using assms(2)[of v] by simp
  then show ?thesis using Inr rv assms(1) by (cases ev) (auto simp: call_def)
qed

lemma submit_no_log: "attempts_of (snd (submit_and_verify t ob)) = []"
  unfolding submit_and_verify_def
  by (intro call_no_log) (auto split: sum.splits exn.splits)

lemma refresh_no_log: "attempts_of (snd (try_refresh ob)) = []"
  by (auto simp: try_refresh_def split: sum.splits exn.splits)

lemma after_no_log: "attempts_of (snd (after_extraction m a t ob)) = []"
  using submit_no_log[of t ob] refresh_no_log[of ob]
  by (auto simp: after_extraction_def attempts_of_append split: prod.splits option.splits)

lemma try_body_log: "attempts_of (snd (try_body m a ob)) = [a]"
proof -
  have "attempts_of (snd (call (Screenshot a) (take_screenshot ob) (\<lambda>_.
                call ExtractText (extracted ob) (\<lambda>text.
                  after_extraction m a (filter isalnum text) ob)))) = []"
    by (intro call_no_log) (auto simp: after_no_log)
  then show ?thesis
    by (auto simp: try_body_def split: sum.splits exn.splits prod.splits)
qed

lemma attempt_body_log: "attempts_of (snd (attempt_body m a ob)) = [a]"
  using try_body_log[of m a ob]
  by (auto simp: attempt_body_def split: prod.splits sum.splits)

lemma call_True:
  assumes "fst (call ev outcome rest) = Inr (Return True)"
  shows "\<exists>v. fst (rest v) = Inr (Return True)"
proof (cases outcome)
  case (Inl e)
  then show ?thesis using assms by (simp add: call_def)
next
  case (Inr v)
  then have "fst (rest v) = Inr (Return True)"
    using assms by (cases "rest v") (simp add: call_def)
  then show ?thesis ..
qed

lemma submit_True:
  "fst (submit_and_verify t ob) = Inr (Return True) \<Longrightarrow> find_still ob = Inl NoSuchElementException"
  unfolding submit_and_verify_def
  by (auto dest!: call_True split: sum.splits exn.splits)

lemma call_ReturnF:
  assumes "fst (call ev outcome rest) = Inr (Return False)"
  shows "\<exists>v. fst (rest v) = Inr (Return False)"
proof (cases outcome)
  case (Inl e)
  then show ?thesis using assms by (simp add: call_def)
next
  case (Inr v)
  then have "fst (rest v) = Inr (Return False)"
    using assms by (cases "rest v") (simp add: call_def)
  then show ?thesis ..
qed

lemma submit_not_False: "fst (submit_and_verify t ob) \<noteq> Inr (Return False)"
  unfolding submit_and_verify_def
  by (auto dest!: call_ReturnF split: sum.splits exn.splits)

lemma after_True:
  "fst (after_extraction m a t ob) = Inr (Return True) \<Longrightarrow> find_still ob = Inl NoSuchElementException"
  using submit_True[of t ob]
  by (auto simp: after_extraction_def try_refresh_def split: prod.splits option.splits sum.splits exn.splits if_splits)

lemma after_not_False: "fst (after_extraction m a t ob) \<noteq> Inr (Return False)"
  using submit_not_False[of t ob]
  by (auto simp: after_extraction_def try_refresh_def split: prod.splits option.splits sum.splits exn.splits if_splits)

lemma try_body_True:
  "fst (try_body m a ob) = Inr (Return True) \<Longrightarrow>
     wait_captcha_img ob = Inl TimeoutException \<or> find_still ob = Inl NoSuchElementException"
proof (cases "wait_captcha_img ob")
  case (Inl e)
  assume "fst (try_body m a ob) = Inr (Return True)"
  then show ?thesis using Inl by (cases e) (auto simp: try_body_def)
next
  case (Inr u)
  assume "fst (try_body m a ob) = Inr (Return True)"
  then have "fst (call (Screenshot a) (take_screenshot ob) (\<lambda>_.
                call ExtractText (extracted ob) (\<lambda>text.
                  after_extraction m a (filter isalnum text) ob))) = Inr (Return True)"
    using Inr by (auto simp: try_body_def split: prod.splits)
  then obtain t0 where "fst (after_extraction m a (filter isalnum t0) ob) = Inr (Return True)"
    by (blast dest: call_True)
  then show ?thesis by (blast dest: after_True)
qed

lemma try_body_not_False: "fst (try_body m a ob) \<noteq> Inr (Return False)"
proof
  assume f: "fst (try_body m a ob) = Inr (Return False)"
  show False
  proof (cases "wait_captcha_img ob")
    case (Inl e)
    then show ?thesis using f by (cases e) (auto simp: try_body_def)
  next
    case (Inr u)
    then have "fst (call (Screenshot a) (take_screenshot ob) (\<lambda>_.
                call ExtractText (extracted ob) (\<lambda>text.
                  after_extraction m a (filter isalnum text) ob))) = Inr (Return False)"
      using f by (auto simp: try_body_def split: prod.splits)
    then obtain t0 where "fst (after_extraction m a (filter isalnum t0) ob) = Inr (Return False)"
      by (blast dest: call_ReturnF)
    then show ?thesis using after_not_False by blast
  qed
qed

lemma attempt_body_True:
  "fst (attempt_body m a ob) = Return True \<Longrightarrow>
     wait_captcha_img ob = Inl TimeoutException \<or> find_still ob = Inl NoSuchElementException"
  using try_body_True[of m a ob]
  by (auto simp: attempt_body_def split: prod.splits sum.splits if_splits)

lemma attempt_body_False:
  "fst (attempt_body m a ob) = Return False \<Longrightarrow> a \<ge> m"
  using try_body_not_False[of m a ob]
  by (auto simp: attempt_body_def split: prod.splits sum.splits if_splits)

lemma loop_attempts_le: "length (attempts_of (snd (attempts_loop m env as))) \<le> length as"
proof (induction as)
  case Nil
  then show ?case by simp
next
  case (Cons a as)
  show ?case using Cons.IH attempt_body_log[of m a "env a"]
    by (auto simp: attempts_of_append split: prod.splits flow.splits)
qed

lemma loop_never_disappears:
  assumes "\<forall>a \<in> set as. wait_captcha_img (env a) \<noteq> Inl TimeoutException
                        \<and> find_still (env a) \<noteq> Inl NoSuchElementException"
    and "\<forall>a \<in> set (butlast as). a < m"
  shows "fst (attempts_loop m env as) = False \<and> attempts_of (snd (attempts_loop m env as)) = as"
  using assms
proof (induction as)
  case Nil
  then show ?case by simp
next
  case (Cons a as)
  obtain f evs where ab: "attempt_body m a (env a) = (f, evs)" by (cases "attempt_body m a (env a)")
  have lg: "attempts_of evs = [a]" using attempt_body_log[of m a "env a"] ab by simp
  have nt: "f \<noteq> Return True" using attempt_body_True[of m a "env a"] ab Cons.prems(1) by auto
  show ?case
  proof (cases as)
    case Nil
    then show ?thesis using ab lg nt by (cases f) (auto split: prod.splits)
  next
    case (Cons b bs)
    then have "a < m" using Cons.prems(2) by simp
    then have nf: "f \<noteq> Return False" using attempt_body_False[of m a "env a"] ab by auto
    from nt nf have c: "f = Continue" by (cases f) auto
    have ih: "fst (attempts_loop m env as) = False \<and> attempts_of (snd (attempts_loop m env as)) = as"
      using Cons.IH Cons.prems Cons by (auto)
    show ?thesis using ab c lg ih by (auto simp: attempts_of_append split: prod.splits)
  qed
qed

lemma butlast_upto: "set (butlast [1..m]) \<subseteq> {a. a < m}"
proof (cases "1 \<le> m")
  case True
  then have "[1..m] = [1..m - 1] @ [m]" by (rule upto_rec2)
  then show ?thesis by auto
next
  case False
  then show ?thesis by simp
qed


lemma attempt_body_all_ok:
  "filter isalnum t \<noteq> [] \<Longrightarrow>
     attempt_body m a (all_ok t) = (Continue, full_cycle (filter isalnum t) a)"
  by (simp add: attempt_body_def try_body_def call_def after_extraction_def
      submit_and_verify_def all_ok_def full_cycle_def)

lemma loop_all_ok:
  "filter isalnum t \<noteq> [] \<Longrightarrow>
     attempts_loop m (\<lambda>_. all_ok t) as = (False, concat (map (full_cycle (filter isalnum t)) as))"
  by (induction as) (simp_all add: attempt_body_all_ok)

text \<open>
  C6. A controller configured with \<open>max_attempts\<close> starts at most \<open>max_attempts\<close> attempts.
  Against a challenge that never disappears (no detection times out and no verification
  finds the input field gone) it returns false after exactly the attempts
  \<open>1, \<dots>, max_attempts\<close>, never one more; when every call returns normally and the
  recognized text is not empty, the run is exactly \<open>max_attempts\<close> full cycles. With
  \<open>max_attempts = 3\<close> these are 3 cycles.
\<close>

theorem solve_captcha_retry_bound:
  "length (attempts_of (snd (solve_captcha env max_attempts))) \<le> nat max_attempts
   \<and> ((\<forall>a \<in> {1..max_attempts}. wait_captcha_img (env a) \<noteq> Inl TimeoutException
                                \<and> find_still (env a) \<noteq> Inl NoSuchElementException) \<longrightarrow>
        fst (solve_captcha env max_attempts) = False
        \<and> attempts_of (snd (solve_captcha env max_attempts)) = [1..max_attempts])
   \<and> (filter isalnum t \<noteq> [] \<longrightarrow>
        solve_captcha (\<lambda>_. all_ok t) max_attempts
          = (False, concat (map (full_cycle (filter isalnum t)) [1..max_attempts])))"
proof (intro conjI impI)
  have "length (attempts_of (snd (solve_captcha env max_attempts))) \<le> length [1..max_attempts]"
    unfolding solve_captcha_def by (rule loop_attempts_le)
  then show "length (attempts_of (snd (solve_captcha env max_attempts))) \<le> nat max_attempts"
    by simp
next
  assume h: "\<forall>a \<in> {1..max_attempts}. wait_captcha_img (env a) \<noteq> Inl TimeoutException
                                \<and> find_still (env a) \<noteq> Inl NoSuchElementException"
  have r: "fst (attempts_loop max_attempts env [1..max_attempts]) = False
     \<and> attempts_of (snd (attempts_loop max_attempts env [1..max_attempts])) = [1..max_attempts]"
  proof (rule loop_never_disappears)
    show "\<forall>a\<in>set [1..max_attempts]. wait_captcha_img (env a) \<noteq> Inl TimeoutException \<and>
       find_still (env a) \<noteq> Inl NoSuchElementException"
      using h by simp
    show "\<forall>a\<in>set (butlast [1..max_attempts]). a < max_attempts"
      using butlast_upto[of max_attempts] by blast
  qed
  from r show "fst (solve_captcha env max_attempts) = False"
    by (simp add: solve_captcha_def)
  from r show "attempts_of (snd (solve_captcha env max_attempts)) = [1..max_attempts]"
    by (simp add: solve_captcha_def)
next
  assume "filter isalnum t \<noteq> []"
  then show "solve_captcha (\<lambda>_. all_ok t) max_attempts
          = (False, concat (map (full_cycle (filter isalnum t)) [1..max_attempts]))"
    unfolding solve_captcha_def by (rule loop_all_ok)
qed

lemma upto_1_3: "[1..3] = [1, 2, 3::int]"
  by (simp add: upto.simps)

theorem solve_captcha_retry_bound_witness:
  "wait_captcha_img (all_ok ''ABC'') \<noteq> Inl TimeoutException
   \<and> find_still (all_ok ''ABC'') \<noteq> Inl NoSuchElementException
   \<and> filter isalnum ''ABC'' \<noteq> []
   \<and> fst (solve_captcha (\<lambda>_. all_ok ''ABC'') 3) = False
   \<and> attempts_of (snd (solve_captcha (\<lambda>_. all_ok ''ABC'') 3)) = [1, 2, 3]
   \<and> solve_captcha (\<lambda>_. all_ok ''ABC'') 3
        = (False, full_cycle ''ABC'' 1 @ full_cycle ''ABC'' 2 @ full_cycle ''ABC'' 3)"
proof -
  have h: "\<forall>a \<in> {1..3::int}. wait_captcha_img (all_ok ''ABC'') \<noteq> Inl TimeoutException
                   \<and> find_still (all_ok ''ABC'') \<noteq> Inl NoSuchElementException"
    by (simp add: all_ok_def)
  have n: "filter isalnum ''ABC'' \<noteq> []" by (simp add: isalnum_def)
  have f: "filter isalnum ''ABC'' = ''ABC''" by (simp add: isalnum_def)
  note t = solve_captcha_retry_bound[of "\<lambda>_. all_ok ''ABC''" 3 "''ABC''"]
  have b: "fst (solve_captcha (\<lambda>_. all_ok ''ABC'') 3) = False
        \<and> attempts_of (snd (solve_captcha (\<lambda>_. all_ok ''ABC'') 3)) = [1..3]"
    by (rule mp[OF t[THEN conjunct2, THEN conjunct1] h])
  have c: "solve_captcha (\<lambda>_. all_ok ''ABC'') 3
          = (False, concat (map (full_cycle (filter isalnum ''ABC'')) [1..3]))"
    by (rule mp[OF t[THEN conjunct2, THEN conjunct2] n])
  have c': "solve_captcha (\<lambda>_. all_ok ''ABC'') 3
        = (False, full_cycle ''ABC'' 1 @ full_cycle ''ABC'' 2 @ full_cycle ''ABC'' 3)"
    using c unfolding f upto_1_3 by simp
  have b2: "attempts_of (snd (solve_captcha (\<lambda>_. all_ok ''ABC'') 3)) = [1, 2, 3]"
    using b unfolding upto_1_3 by simp
  show ?thesis
    by (intro conjI n b[THEN conjunct1] b2 c') (simp_all add: all_ok_def)
qed

lemma upto_1_2: "[1..2] = [1, 2::int]"
  by (simp add: upto.simps)

text \<open>
  C1. The claim says that the text is typed and submitted only when it is not empty, and
  that an empty text without a refresh icon, or on the last attempt, ends the run. The
  code falls through: on a page that never yields text and has no refresh icon, with two
  attempts, it clears the field, types the empty text and clicks submit in both attempts,
  and does not stop after the first.
\<close>

theorem solve_captcha_submits_empty_text:
  "solve_captcha env_empty_text 2 =
     (False,
      [LogAttempt 1, WaitImg, Screenshot 1, ExtractText, FindRefresh,
       FindInput, ClearInput, SendKeys '''', FindSubmit, ClickSubmit, FindStill,
       LogAttempt 2, WaitImg, Screenshot 2, ExtractText,
       FindInput, ClearInput, SendKeys '''', FindSubmit, ClickSubmit, FindStill])"
  by (simp add: solve_captcha_def upto_1_2 attempt_body_def try_body_def call_def
      after_extraction_def try_refresh_def submit_and_verify_def env_empty_text_def all_ok_def)

section \<open>The rotation-search recognizer\<close>

lemma keep_better_gt: "float_gt (snd p) (snd best) \<Longrightarrow> keep_better best p = p"
  by (simp add: keep_better_def)

lemma keep_better_le: "\<not> float_gt (snd p) (snd best) \<Longrightarrow> keep_better best p = best"
  by (simp add: keep_better_def)

lemma float_gt_trans: "float_gt a b \<Longrightarrow> float_gt b c \<Longrightarrow> float_gt a c"
  by (cases a; cases b; cases c) auto

lemma float_gt_irrefl: "\<not> float_gt a a"
  by (cases a) auto

lemma float_not_gt_gt: "\<not> float_gt a c \<Longrightarrow> float_gt p c \<Longrightarrow> \<not> float_gt a p"
  by (cases a; cases p; cases c) auto

lemma float_le_lt: "\<not> float_gt a c \<Longrightarrow> float_gt p c \<Longrightarrow> float_gt a d \<Longrightarrow> float_gt p a"
  by (cases a; cases p; cases c; cases d) auto

lemma scan_pairs_first:
  "scan_pairs pairs best =
     (case first_accepted pairs of None \<Rightarrow> best | Some p \<Rightarrow> keep_better best p)"
proof (induction pairs)
  case Nil
  then show ?case by (cases best) (simp add: first_accepted_def)
next
  case (Cons a pairs)
  obtain tx cf where a: "a = (tx, cf)" by (cases a)
  obtain bc bf where b: "best = (bc, bf)" by (cases best)
  show ?case
  proof (cases "strip tx = []")
    case True
    then show ?thesis using Cons a b by (simp add: first_accepted_def)
  next
    case False
    then show ?thesis using Cons a b
      by (cases cf) (simp_all add: first_accepted_def keep_better_def)
  qed
qed

lemma angle_loop_fold:
  "\<forall>ang \<in> set angs. \<exists>d. ocr img ang = Inr d \<Longrightarrow>
     angle_loop ocr img angs best
       = Inr (foldl keep_better best (List.map_filter (accepted_at ocr img) angs))"
proof (induction angs arbitrary: best)
  case Nil
  then show ?case by simp
next
  case (Cons ang angs)
  then obtain d where d: "ocr img ang = Inr d" by auto
  have ih: "\<And>b. angle_loop ocr img angs b
       = Inr (foldl keep_better b (List.map_filter (accepted_at ocr img) angs))"
    using Cons by simp
  have acc: "accepted_at ocr img ang = first_accepted (zip (data_text d) (data_conf d))"
    by (simp add: accepted_at_def d)
  show ?case
    by (simp add: d ih scan_pairs_first acc split: option.splits)
qed

lemma angle_loop_raises:
  "angle_loop ocr img angs best = Inl e \<Longrightarrow> \<exists>ang \<in> set angs. ocr img ang = Inl e"
  by (induction angs arbitrary: best) (auto split: sum.splits)

lemma angle_loop_returns:
  "angle_loop ocr img angs best = Inr r \<Longrightarrow> \<forall>ang \<in> set angs. \<exists>d. ocr img ang = Inr d"
  by (induction angs arbitrary: best) (auto split: sum.splits)

lemma fold_best:
  "(above c0 acc = [] \<longrightarrow> foldl keep_better (t0, c0) acc = (t0, c0)) \<and>
   (above c0 acc \<noteq> [] \<longrightarrow>
      (\<exists>i. is_best (above c0 acc) i \<and> foldl keep_better (t0, c0) acc = above c0 acc ! i))"
proof (induction acc rule: rev_induct)
  case Nil
  then show ?case by (simp add: above_def)
next
  case (snoc p acc)
  let ?A = "above c0 acc"
  let ?b = "foldl keep_better (t0, c0) acc"
  have step: "foldl keep_better (t0, c0) (acc @ [p]) = keep_better ?b p" by simp
  have ab: "above c0 (acc @ [p]) = ?A @ (if float_gt (snd p) c0 then [p] else [])"
    by (simp add: above_def)
  show ?case
  proof (cases "?A = []")
    case True
    then have b: "?b = (t0, c0)" using snoc by simp
    show ?thesis
    proof (cases "float_gt (snd p) c0")
      case True
      have "is_best [p] 0" by (simp add: is_best_def float_gt_irrefl)
      then show ?thesis using True \<open>?A = []\<close> b ab step by (auto simp: keep_better_gt keep_better_le)
    next
      case False
      then show ?thesis using \<open>?A = []\<close> b ab step by (simp add: keep_better_gt keep_better_le)
    qed
  next
    case False
    then obtain i where i: "is_best ?A i" and bi: "?b = ?A ! i" using snoc by auto
    have ilt: "i < length ?A" using i by (simp add: is_best_def)
    have Agt: "\<And>j. j < length ?A \<Longrightarrow> float_gt (snd (?A ! j)) c0"
    proof -
      fix j assume "j < length ?A"
      then have "?A ! j \<in> set ?A" by simp
      then show "float_gt (snd (?A ! j)) c0" by (simp add: above_def)
    qed
    show ?thesis
    proof (cases "float_gt (snd p) (snd ?b)")
      case True
      have pc0: "float_gt (snd p) c0"
        using True bi Agt[OF ilt] float_gt_trans by metis
      have A': "above c0 (acc @ [p]) = ?A @ [p]" using ab pc0 by simp
      have "is_best (?A @ [p]) (length ?A)"
        unfolding is_best_def
      proof (intro conjI allI impI)
        show "length ?A < length (?A @ [p])" by simp
      next
        fix j assume j: "j < length (?A @ [p])"
        show "\<not> float_gt (snd ((?A @ [p]) ! j)) (snd ((?A @ [p]) ! length ?A))"
        proof (cases "j < length ?A")
          case jl: True
          have "\<not> float_gt (snd (?A ! j)) (snd (?A ! i))"
            using i jl by (simp add: is_best_def)
          then have "\<not> float_gt (snd (?A ! j)) (snd p)"
            using True bi float_not_gt_gt by metis
          then show ?thesis using jl by (simp add: nth_append)
        next
          case False
          then have "j = length ?A" using j by simp
          then show ?thesis by (simp add: float_gt_irrefl)
        qed
      next
        fix j assume j: "j < length ?A"
        have "\<not> float_gt (snd (?A ! j)) (snd (?A ! i))"
          using i j by (simp add: is_best_def)
        then have "float_gt (snd p) (snd (?A ! j))"
          using True bi Agt[OF j] float_le_lt by metis
        then show "float_gt (snd ((?A @ [p]) ! length ?A)) (snd ((?A @ [p]) ! j))"
          using j by (simp add: nth_append)
      qed
      moreover have "keep_better ?b p = (?A @ [p]) ! length ?A"
        using True by (simp add: keep_better_gt keep_better_le)
      ultimately show ?thesis using A' step by (metis snoc_eq_iff_butlast)
    next
      case nb: False
      have kb: "keep_better ?b p = ?A ! i" using nb bi by (simp add: keep_better_gt keep_better_le)
      show ?thesis
      proof (cases "float_gt (snd p) c0")
        case True
        have A': "above c0 (acc @ [p]) = ?A @ [p]" using ab True by simp
        have "is_best (?A @ [p]) i"
          unfolding is_best_def
        proof (intro conjI allI impI)
          show "i < length (?A @ [p])" using ilt by simp
        next
          fix j assume j: "j < length (?A @ [p])"
          show "\<not> float_gt (snd ((?A @ [p]) ! j)) (snd ((?A @ [p]) ! i))"
          proof (cases "j < length ?A")
            case jl: True
            then show ?thesis using i ilt by (simp add: nth_append is_best_def)
          next
            case False
            then have "j = length ?A" using j by simp
            then show ?thesis using nb bi ilt by (simp add: nth_append)
          qed
        next
          fix j assume "j < i"
          then show "float_gt (snd ((?A @ [p]) ! i)) (snd ((?A @ [p]) ! j))"
            using i ilt by (simp add: nth_append is_best_def)
        qed
        moreover have "(?A @ [p]) ! i = ?A ! i" using ilt by (simp add: nth_append)
        ultimately show ?thesis using A' kb step by (metis snoc_eq_iff_butlast)
      next
        case False
        then have "above c0 (acc @ [p]) = ?A" using ab by simp
        then show ?thesis using i kb step \<open>?A \<noteq> []\<close> by auto
      qed
    qed
  qed
qed

lemma above_sentinel_above: "above_sentinel acc = above (Fin (- 1)) acc"
  by (simp add: above_sentinel_def above_def)

lemma recognize_fold:
  assumes "\<forall>ang \<in> set angles. \<exists>d. ocr img ang = Inr d"
  shows "recognize_with_rotations ocr img
           = Inr (fst (foldl keep_better ('''', Fin (- 1)) (accepted ocr img)))"
  unfolding recognize_with_rotations_def accepted_def angle_loop_fold[where ocr=ocr and img=img, OF assms]
  by (simp split: prod.splits)

lemma recognize_returns:
  "recognize_with_rotations ocr img = Inr r \<Longrightarrow> \<forall>ang \<in> set angles. \<exists>d. ocr img ang = Inr d"
  unfolding recognize_with_rotations_def
  by (auto split: sum.splits dest: angle_loop_returns)

lemma recognize_raises:
  "recognize_with_rotations ocr img = Inl e \<Longrightarrow> \<exists>ang \<in> set angles. ocr img ang = Inl e"
  unfolding recognize_with_rotations_def
  by (auto split: sum.splits prod.splits dest: angle_loop_raises)

lemma recognize_cases:
  assumes "\<forall>ang \<in> set angles. \<exists>d. ocr img ang = Inr d"
  shows "\<exists>r. recognize_with_rotations ocr img = Inr r \<and>
           (above_sentinel (accepted ocr img) = [] \<longrightarrow> r = '''') \<and>
           (above_sentinel (accepted ocr img) \<noteq> [] \<longrightarrow>
              (\<exists>i. is_best (above_sentinel (accepted ocr img)) i
                    \<and> r = fst (above_sentinel (accepted ocr img) ! i)))"
  using fold_best[of "Fin (- 1)" "accepted ocr img" "''''"]
  by (auto simp: recognize_fold[where ocr=ocr and img=img, OF assms] above_sentinel_above)

lemma find_usable:
  "find usable pairs = Some p \<Longrightarrow> p \<in> set pairs \<and> usable p"
  by (induction pairs) (auto split: if_splits)

lemma first_accepted_origin:
  assumes "first_accepted pairs = Some (t, c)"
  shows "\<exists>tx cf. (tx, cf) \<in> set pairs \<and> t = strip tx \<and> t \<noteq> [] \<and> float_py cf = Some c"
proof -
  from assms obtain tx f where f: "find usable pairs = Some (tx, Conf f)" and t: "t = strip tx" and c: "c = f"
    by (auto simp: first_accepted_def split: option.splits prod.splits conf_value.splits)
  from find_usable[OF f] have "(tx, Conf f) \<in> set pairs" and "strip tx \<noteq> []" by auto
  then show ?thesis using t c by force
qed

lemma in_map_filter:
  "y \<in> set (List.map_filter f xs) \<Longrightarrow> \<exists>x \<in> set xs. f x = Some y"
  by (induction xs) (auto split: option.splits)

lemma accepted_origin:
  assumes "p \<in> set (accepted ocr img)"
  shows "\<exists>ang \<in> set angles. \<exists>data. ocr img ang = Inr data \<and>
           (\<exists>tx \<in> set (data_text data). fst p = strip tx \<and> fst p \<noteq> [])"
proof -
  from assms obtain ang where a: "ang \<in> set angles" and s: "accepted_at ocr img ang = Some p"
    by (auto simp: accepted_def dest: in_map_filter)
  then obtain data where d: "ocr img ang = Inr data"
      and fa: "first_accepted (zip (data_text data) (data_conf data)) = Some p"
    by (auto simp: accepted_at_def split: sum.splits)
  from fa have "first_accepted (zip (data_text data) (data_conf data)) = Some (fst p, snd p)"
    by simp
  from first_accepted_origin[OF this]
  obtain tx cf where "(tx, cf) \<in> set (zip (data_text data) (data_conf data))"
      and "fst p = strip tx" and "fst p \<noteq> []"
    by blast
  then have "tx \<in> set (data_text data)" by (auto dest: set_zip_leftD)
  then show ?thesis using a d \<open>fst p = strip tx\<close> \<open>fst p \<noteq> []\<close> by blast
qed

lemma above_sentinel_subset: "set (above_sentinel acc) \<subseteq> set acc"
  by (auto simp: above_sentinel_def)

lemma accepted_ocr_ties:
  "accepted ocr_ties black5 = [(''B'', Fin 80), (''D'', Fin 90), (''E'', Fin 90)]"
  by (simp add: accepted_def angles_def accepted_at_def ocr_ties_def
      first_accepted_def strip_def isspace_def no_data_def)

lemma is_best_lt: "is_best acc i \<Longrightarrow> i < length acc"
  by (simp add: is_best_def)

lemma recognize_nonempty_or_origin:
  assumes "recognize_with_rotations ocr img = Inr r"
  shows "(above_sentinel (accepted ocr img) = [] \<and> r = '''') \<or>
         (above_sentinel (accepted ocr img) \<noteq> [] \<and> r \<in> fst ` set (accepted ocr img))"
proof -
  have h: "\<forall>ang \<in> set angles. \<exists>d. ocr img ang = Inr d"
    using assms by (rule recognize_returns)
  from recognize_cases[where ocr=ocr and img=img, OF h] assms
  have e: "above_sentinel (accepted ocr img) = [] \<longrightarrow> r = ''''"
    and n: "above_sentinel (accepted ocr img) \<noteq> [] \<longrightarrow>
              (\<exists>i. is_best (above_sentinel (accepted ocr img)) i
                    \<and> r = fst (above_sentinel (accepted ocr img) ! i))"
    by auto
  show ?thesis
  proof (cases "above_sentinel (accepted ocr img) = []")
    case True
    then show ?thesis using e by simp
  next
    case False
    then obtain i where i: "is_best (above_sentinel (accepted ocr img)) i"
        and r: "r = fst (above_sentinel (accepted ocr img) ! i)"
      using n by blast
    have "above_sentinel (accepted ocr img) ! i \<in> set (above_sentinel (accepted ocr img))"
      using is_best_lt[OF i] by simp
    then have "above_sentinel (accepted ocr img) ! i \<in> set (accepted ocr img)"
      using above_sentinel_subset by blast
    then show ?thesis using False r by blast
  qed
qed

lemma recognize_total:
  assumes "\<forall>ang \<in> set angles. \<exists>d. ocr img ang = Inr d"
  shows "\<exists>r. recognize_with_rotations ocr img = Inr r"
  using recognize_fold[where ocr=ocr and img=img, OF assms] by simp

lemma angle_loop_raises_if:
  "ang \<in> set angs \<Longrightarrow> ocr img ang = Inl e' \<Longrightarrow> \<exists>e. angle_loop ocr img angs best = Inl e"
proof (induction angs arbitrary: best)
  case Nil
  then show ?case by simp
next
  case (Cons a angs)
  show ?case
  proof (cases "ocr img a")
    case (Inl e)
    then show ?thesis by simp
  next
    case (Inr d)
    then have "a \<noteq> ang" using Cons.prems(2) by auto
    then have "ang \<in> set angs" using Cons.prems(1) by simp
    from Cons.IH[OF this Cons.prems(2)] show ?thesis using Inr by simp
  qed
qed

lemma recognize_raises_if:
  assumes "ang \<in> set angles" "ocr img ang = Inl e'"
  shows "\<exists>e. recognize_with_rotations ocr img = Inl e"
proof -
  from angle_loop_raises_if[where ocr=ocr and img=img and best="('''', Fin (- 1))", OF assms]
  obtain e where "angle_loop ocr img angles ('''', Fin (- 1)) = Inl e" by blast
  then show ?thesis by (simp add: recognize_with_rotations_def)
qed

lemma above_sentinel_all:
  "\<forall>p \<in> set acc. float_gt (snd p) (Fin (- 1)) \<Longrightarrow> above_sentinel acc = acc"
  by (simp add: above_sentinel_def)

lemma recognize_valid:
  assumes valid: "\<forall>p \<in> set (accepted ocr img). float_gt (snd p) (Fin (- 1))"
    and r: "recognize_with_rotations ocr img = Inr r"
  shows "(accepted ocr img = [] \<longrightarrow> r = '''') \<and>
         (accepted ocr img \<noteq> [] \<longrightarrow>
            (\<exists>i. is_best (accepted ocr img) i \<and> r = fst (accepted ocr img ! i)))"
proof -
  have h: "\<forall>ang \<in> set angles. \<exists>d. ocr img ang = Inr d" using r by (rule recognize_returns)
  from recognize_cases[where ocr=ocr and img=img, OF h] r
  show ?thesis unfolding above_sentinel_all[OF valid] by simp
qed

text \<open>
  C3. For every segment and every recognition capability whose accepted confidences are
  valid (above the initial -1), the angles are tried in the order -30, -15, 15, 30; at each
  angle the first pair whose trimmed text is not empty and whose confidence parses is
  accepted (\<open>first_accepted\<close>, which \<open>scan_pairs\<close> computes; an earlier pair whose confidence
  does not parse is skipped). Whenever the recognizer returns, and it returns whenever the
  capability answers at each angle, the result is the text of the accepted pair with the
  highest confidence over all angles, the earliest one on an exact tie, and the empty
  string when no angle has an accepted pair. When the capability raises at an angle, so
  does the recognizer.
\<close>

theorem recognize_with_rotations_best:
  assumes "\<forall>p \<in> set (accepted ocr img). float_gt (snd p) (Fin (- 1))"
  shows "angles = [- 30, - 15, 15, 30]
         \<and> (\<forall>pairs best. scan_pairs pairs best =
               (case first_accepted pairs of None \<Rightarrow> best | Some p \<Rightarrow> keep_better best p))
         \<and> (\<forall>r. recognize_with_rotations ocr img = Inr r \<longrightarrow>
               (accepted ocr img = [] \<longrightarrow> r = '''') \<and>
               (accepted ocr img \<noteq> [] \<longrightarrow>
                  (\<exists>i. is_best (accepted ocr img) i \<and> r = fst (accepted ocr img ! i))))
         \<and> ((\<forall>ang \<in> set angles. \<exists>data. ocr img ang = Inr data) \<longrightarrow>
               (\<exists>r. recognize_with_rotations ocr img = Inr r))
         \<and> ((\<exists>ang \<in> set angles. \<exists>e. ocr img ang = Inl e) \<longrightarrow>
               (\<exists>e. recognize_with_rotations ocr img = Inl e))"
proof (intro conjI allI impI)
  show "angles = [- 30, - 15, 15, 30]" by (simp add: angles_def)
next
  fix pairs best
  show "scan_pairs pairs best =
          (case first_accepted pairs of None \<Rightarrow> best | Some p \<Rightarrow> keep_better best p)"
    by (rule scan_pairs_first)
next
  fix r assume r: "recognize_with_rotations ocr img = Inr r"
  note v = recognize_valid[OF assms r]
  { assume "accepted ocr img = []" then show "r = ''''" using v by blast }
  { assume "accepted ocr img \<noteq> []"
    then show "\<exists>i. is_best (accepted ocr img) i \<and> r = fst (accepted ocr img ! i)"
      using v by blast }
next
  assume "\<forall>ang \<in> set angles. \<exists>data. ocr img ang = Inr data"
  then show "\<exists>r. recognize_with_rotations ocr img = Inr r" by (rule recognize_total)
next
  assume "\<exists>ang \<in> set angles. \<exists>e. ocr img ang = Inl e"
  then show "\<exists>e. recognize_with_rotations ocr img = Inl e"
    using recognize_raises_if by blast
qed

lemma accepted_ocr_then_fails: "accepted ocr_then_fails black5 = [(''A'', Fin 90)]"
  by (simp add: accepted_def angles_def accepted_at_def ocr_then_fails_def
      first_accepted_def strip_def isspace_def)

theorem recognize_with_rotations_best_witness:
  "accepted ocr_ties black5 = [(''B'', Fin 80), (''D'', Fin 90), (''E'', Fin 90)]
   \<and> recognize_with_rotations ocr_ties black5 = Inr ''D''
   \<and> scan_pairs [('''', Conf (Fin 99)), ('' A '', Unparsable), (''B'', Conf (Fin 80)),
                  (''C'', Conf (Fin 99))] ('''', Fin (- 1)) = (''B'', Fin 80)
   \<and> ocr_then_fails black5 (- 15) = Inl TesseractError
   \<and> recognize_with_rotations ocr_then_fails black5 = Inl TesseractError"
proof -
  let ?A = "[(''B'', Fin 80), (''D'', Fin 90), (''E'', Fin 90)]"
  have A: "accepted ocr_ties black5 = ?A" by (rule accepted_ocr_ties)
  have valid: "\<forall>p \<in> set (accepted ocr_ties black5). float_gt (snd p) (Fin (- 1))"
    unfolding A by simp
  note t = recognize_with_rotations_best[where ocr=ocr_ties and img=black5, OF valid]
  have h: "\<forall>ang \<in> set angles. \<exists>data. ocr_ties black5 ang = Inr data"
    by (simp add: ocr_ties_def angles_def)
  from t h obtain r where r: "recognize_with_rotations ocr_ties black5 = Inr r" by blast
  have ne: "accepted ocr_ties black5 \<noteq> []" unfolding A by simp
  from t r ne obtain i where i: "is_best ?A i" and ri: "r = fst (?A ! i)"
    unfolding A by blast
  have "i < 3" using i by (simp add: is_best_def)
  then consider "i = 0" | "i = 1" | "i = 2" by linarith
  then have "i = 1"
  proof cases
    case 1
    have "\<not> float_gt (snd (?A ! 1)) (snd (?A ! i))"
      using i unfolding is_best_def by (metis One_nat_def length_Cons list.size(3) lessI less_Suc_eq)
    then show ?thesis using 1 by simp
  next
    case 2
    then show ?thesis .
  next
    case 3
    have "float_gt (snd (?A ! i)) (snd (?A ! 1))"
      using i 3 unfolding is_best_def by (metis One_nat_def lessI numeral_2_eq_2)
    then show ?thesis using 3 by simp
  qed
  then have rD: "recognize_with_rotations ocr_ties black5 = Inr ''D''" using ri r by simp
  have sp: "scan_pairs [('''', Conf (Fin 99)), ('' A '', Unparsable), (''B'', Conf (Fin 80)),
                  (''C'', Conf (Fin 99))] ('''', Fin (- 1)) = (''B'', Fin 80)"
    by (simp add: strip_def isspace_def)
  have valid2: "\<forall>p \<in> set (accepted ocr_then_fails black5). float_gt (snd p) (Fin (- 1))"
    unfolding accepted_ocr_then_fails by simp
  have f: "ocr_then_fails black5 (- 15) = Inl TesseractError" by (simp add: ocr_then_fails_def)
  have "\<exists>ang \<in> set angles. \<exists>e. ocr_then_fails black5 ang = Inl e"
    using f by (auto simp: angles_def)
  with recognize_with_rotations_best[where ocr=ocr_then_fails and img=black5, OF valid2]
  obtain e where "recognize_with_rotations ocr_then_fails black5 = Inl e" by blast
  moreover have "recognize_with_rotations ocr_then_fails black5 = Inl TesseractError"
    by (simp add: recognize_with_rotations_def angles_def ocr_then_fails_def
        strip_def isspace_def)
  ultimately have rf: "recognize_with_rotations ocr_then_fails black5 = Inl TesseractError"
    by simp
  show ?thesis by (intro conjI A rD sp f rf)
qed


lemma map_filter_append:
  "List.map_filter f (xs @ ys) = List.map_filter f xs @ List.map_filter f ys"
  by (simp add: List.map_filter_def)

lemma map_filter_all_None: "\<forall>x \<in> set xs. f x = None \<Longrightarrow> List.map_filter f xs = []"
  by (induction xs) simp_all

lemma map_filter_mem: "x \<in> set xs \<Longrightarrow> f x = Some y \<Longrightarrow> y \<in> set (List.map_filter f xs)"
  by (induction xs) (auto split: option.splits)

lemma accepted_at_returns: "accepted_at ocr img ang = Some p \<Longrightarrow> \<exists>d. ocr img ang = Inr d"
  by (cases "ocr img ang") (simp_all add: accepted_at_def)

lemma first_detection:
  assumes valid: "\<forall>p \<in> set (accepted ocr img). float_gt (snd p) (Fin (- 1))"
    and split: "angles = pre @ ang # post"
    and ret: "\<forall>a \<in> set pre. \<exists>d. ocr img a = Inr d"
    and none: "\<forall>a \<in> set pre. accepted_at ocr img a = None"
    and some: "accepted_at ocr img ang = Some p"
  shows "angle_loop ocr img (pre @ [ang]) ('''', Fin (- 1)) = Inr p"
proof -
  have all: "\<forall>a \<in> set (pre @ [ang]). \<exists>d. ocr img a = Inr d"
    using ret accepted_at_returns[OF some] by auto
  have "ang \<in> set angles" unfolding split by simp
  then have "p \<in> set (accepted ocr img)"
    unfolding accepted_def using some by (rule map_filter_mem)
  then have gt: "float_gt (snd p) (snd ('''', Fin (- 1)))" using valid by simp
  have "List.map_filter (accepted_at ocr img) (pre @ [ang]) = [p]"
    using map_filter_all_None[OF none] some by (simp add: map_filter_append)
  then have "angle_loop ocr img (pre @ [ang]) ('''', Fin (- 1))
               = Inr (keep_better ('''', Fin (- 1)) p)"
    using angle_loop_fold[where ocr=ocr and img=img, OF all, of "('''', Fin (- 1))"] by simp
  then show ?thesis using keep_better_gt[OF gt] by simp
qed

lemma recognize_valid_nonempty:
  assumes valid: "\<forall>p \<in> set (accepted ocr img). float_gt (snd p) (Fin (- 1))"
    and ne: "accepted ocr img \<noteq> []"
    and r: "recognize_with_rotations ocr img = Inr r"
  shows "r \<noteq> ''''"
proof -
  from recognize_valid[OF valid r] ne
  obtain i where i: "is_best (accepted ocr img) i" and ri: "r = fst (accepted ocr img ! i)"
    by blast
  have "accepted ocr img ! i \<in> set (accepted ocr img)" using is_best_lt[OF i] by simp
  from accepted_origin[OF this] show ?thesis using ri by auto
qed

text \<open>
  C4. The initial best confidence is -1, below any valid confidence. For every segment
  and every recognition capability whose accepted confidences are valid (above -1): the
  first accepted detection replaces the sentinel, that is, after the first angle that has
  an accepted pair (the angles before it having answered without one) the best pair is
  that pair; and whenever at least one pair is accepted at some angle, the string the
  recognizer returns is not empty, and it does return when the capability answers at
  each angle.
\<close>

theorem first_detection_replaces_sentinel:
  assumes "\<forall>p \<in> set (accepted ocr img). float_gt (snd p) (Fin (- 1))"
  shows "(\<forall>pre ang post p.
            angles = pre @ ang # post \<and> (\<forall>a \<in> set pre. \<exists>d. ocr img a = Inr d) \<and>
            (\<forall>a \<in> set pre. accepted_at ocr img a = None) \<and> accepted_at ocr img ang = Some p
            \<longrightarrow> angle_loop ocr img (pre @ [ang]) ('''', Fin (- 1)) = Inr p)
         \<and> (accepted ocr img \<noteq> [] \<longrightarrow>
               (\<forall>r. recognize_with_rotations ocr img = Inr r \<longrightarrow> r \<noteq> ''''))
         \<and> (accepted ocr img \<noteq> [] \<and> (\<forall>ang \<in> set angles. \<exists>data. ocr img ang = Inr data) \<longrightarrow>
               (\<exists>r. recognize_with_rotations ocr img = Inr r \<and> r \<noteq> ''''))"
proof (intro conjI allI impI)
  fix pre ang post p
  assume "angles = pre @ ang # post \<and> (\<forall>a \<in> set pre. \<exists>d. ocr img a = Inr d) \<and>
            (\<forall>a \<in> set pre. accepted_at ocr img a = None) \<and> accepted_at ocr img ang = Some p"
  then show "angle_loop ocr img (pre @ [ang]) ('''', Fin (- 1)) = Inr p"
    using first_detection[where ocr=ocr and img=img, OF assms] by blast
next
  fix r assume "accepted ocr img \<noteq> []" and "recognize_with_rotations ocr img = Inr r"
  then show "r \<noteq> ''''" using recognize_valid_nonempty[OF assms] by blast
next
  assume a: "accepted ocr img \<noteq> [] \<and> (\<forall>ang \<in> set angles. \<exists>data. ocr img ang = Inr data)"
  then obtain r where r: "recognize_with_rotations ocr img = Inr r"
    using recognize_total[where ocr=ocr and img=img] by blast
  then have "r \<noteq> ''''" using recognize_valid_nonempty[OF assms _ r] a by blast
  then show "\<exists>r. recognize_with_rotations ocr img = Inr r \<and> r \<noteq> ''''" using r by blast
qed

lemma accepted_ocr_late: "accepted ocr_late black5 = [(''Q'', Fin 0)]"
  by (simp add: accepted_def angles_def accepted_at_def ocr_late_def no_data_def
      first_accepted_def strip_def isspace_def)

theorem first_detection_replaces_sentinel_witness:
  "accepted ocr_late black5 = [(''Q'', Fin 0)]
   \<and> float_gt (Fin 0) (Fin (- 1))
   \<and> angles = [- 30] @ (- 15) # [15, 30]
   \<and> accepted_at ocr_late black5 (- 30) = None
   \<and> accepted_at ocr_late black5 (- 15) = Some (''Q'', Fin 0)
   \<and> angle_loop ocr_late black5 ([- 30] @ [- 15]) ('''', Fin (- 1)) = Inr (''Q'', Fin 0)
   \<and> recognize_with_rotations ocr_late black5 = Inr ''Q''"
proof -
  have A: "accepted ocr_late black5 = [(''Q'', Fin 0)]" by (rule accepted_ocr_late)
  have valid: "\<forall>p \<in> set (accepted ocr_late black5). float_gt (snd p) (Fin (- 1))"
    unfolding A by simp
  note t = first_detection_replaces_sentinel[where ocr=ocr_late and img=black5, OF valid]
  have g: "float_gt (Fin 0) (Fin (- 1))" by simp
  have sp: "angles = [- 30] @ (- 15) # [15, 30]" by (simp add: angles_def)
  have n: "accepted_at ocr_late black5 (- 30) = None"
    by (simp add: accepted_at_def ocr_late_def no_data_def first_accepted_def)
  have s: "accepted_at ocr_late black5 (- 15) = Some (''Q'', Fin 0)"
    by (simp add: accepted_at_def ocr_late_def first_accepted_def strip_def isspace_def)
  have ret: "\<forall>a \<in> set [- 30]. \<exists>d. ocr_late black5 a = Inr d" by (simp add: ocr_late_def)
  have nn: "\<forall>a \<in> set [- 30]. accepted_at ocr_late black5 a = None" using n by simp
  have l: "angle_loop ocr_late black5 ([- 30] @ [- 15]) ('''', Fin (- 1)) = Inr (''Q'', Fin 0)"
    using t sp ret nn s by blast
  have all: "\<forall>ang \<in> set angles. \<exists>data. ocr_late black5 ang = Inr data"
    by (simp add: ocr_late_def angles_def)
  have ne: "accepted ocr_late black5 \<noteq> []" unfolding A by simp
  from t ne all obtain r where r: "recognize_with_rotations ocr_late black5 = Inr r" and "r \<noteq> ''''"
    by blast
  have "recognize_with_rotations ocr_late black5 = Inr ''Q''"
    by (simp add: recognize_with_rotations_def angles_def ocr_late_def no_data_def
        strip_def isspace_def)
  then show ?thesis using A g sp n s l by simp
qed

text \<open>
  C5. The claim, like the docstring of \<open>_recognize_with_rotations\<close> ("return the
  highest-confidence char") and the comment on line 99 ("only consider the first detected
  character"), says the result is empty or a single character. The code returns the whole
  trimmed fragment: for a capability that answers with the fragment "AB" the result is
  "AB", two characters.
\<close>

theorem recognize_with_rotations_returns_fragment:
  "recognize_with_rotations ocr_two black5 = Inr ''AB'' \<and> length ''AB'' = (2::nat)"
  by (simp add: recognize_with_rotations_def angles_def ocr_two_def strip_def isspace_def)

section \<open>\<open>extract_text\<close> and exceptions\<close>

lemma parts_loop_raises:
  "parts_loop ocr parts acc = Inl e \<Longrightarrow>
     \<exists>part \<in> set parts. recognize_with_rotations ocr part = Inl e"
  by (induction parts arbitrary: acc) (auto split: sum.splits)

lemma parts_loop_returns:
  "\<forall>part \<in> set parts. \<exists>r. recognize_with_rotations ocr part = Inr r \<Longrightarrow>
     \<exists>rs. parts_loop ocr parts acc = Inr rs"
  by (induction parts arbitrary: acc) auto

lemma trim_black5: "trim_whitespace black5 = black5"
  by (simp add: trim_whitespace_def nonwhite_rows_def nonwhite_cols_def black5_def is_white_def
      getpixel_def upt_rec[of _ "numeral _"] upt_rec[of 0 1] nth_Cons')

lemma vsum_black5: "vsum black5 = [1, 1, 1, 1, 1]"
  by (simp add: vsum_def black5_def upt_rec[of _ "numeral _"] upt_rec[of 0 1] nth_Cons')

lemma segment_black5: "segment_letters_by_projection black5 = [black5]"
  by (simp add: segment_letters_by_projection_def vsum_black5)
     (simp add: black5_def getpixel_def upt_rec[of _ "numeral _"] upt_rec[of 0 1] nth_Cons')

lemma parts_loop_raises_if:
  "part \<in> set parts \<Longrightarrow> recognize_with_rotations ocr part = Inl e' \<Longrightarrow>
     \<exists>e. parts_loop ocr parts acc = Inl e"
proof (induction parts arbitrary: acc)
  case Nil
  then show ?case by simp
next
  case (Cons a parts)
  show ?case
  proof (cases "recognize_with_rotations ocr a")
    case (Inl e)
    then show ?thesis by simp
  next
    case (Inr ch)
    then have "a \<noteq> part" using Cons.prems(2) by auto
    then have "part \<in> set parts" using Cons.prems(1) by simp
    from Cons.IH[OF this Cons.prems(2)] show ?thesis using Inr by simp
  qed
qed

text \<open>
  C2 (amended). A missing file and a fault of opening the image give the empty string
  (the \<open>try\<close> block holds the opening and the trimming; trimming and segmentation raise
  nothing). An exception of the recognition capability is not caught: whenever the
  capability raises at one of the four angles on one of the segments, \<open>extract_text\<close>
  raises; and every exception that leaves \<open>extract_text\<close> is one the capability raised
  at one of the four angles on one of the segments. When the capability never raises,
  \<open>extract_text\<close> returns a string.
\<close>

theorem extract_text_faults:
  "(\<not> path_exists \<longrightarrow> extract_text path_exists opened ocr = Inr '''')
   \<and> (opened = Inl e0 \<longrightarrow> extract_text path_exists opened ocr = Inr '''')
   \<and> (path_exists \<and> opened = Inr img0
        \<and> part0 \<in> set (segment_letters_by_projection (trim_whitespace img0))
        \<and> ang0 \<in> set angles \<and> ocr part0 ang0 = Inl e1 \<longrightarrow>
        (\<exists>e. extract_text path_exists opened ocr = Inl e))
   \<and> (extract_text path_exists opened ocr = Inl e \<longrightarrow>
        (\<exists>img part. opened = Inr img
           \<and> part \<in> set (segment_letters_by_projection (trim_whitespace img))
           \<and> (\<exists>ang \<in> set angles. ocr part ang = Inl e)))
   \<and> ((\<forall>part. \<forall>ang \<in> set angles. \<exists>data. ocr part ang = Inr data) \<longrightarrow>
        (\<exists>s. extract_text path_exists opened ocr = Inr s))"
proof (intro conjI impI)
  assume "\<not> path_exists"
  then show "extract_text path_exists opened ocr = Inr ''''"
    by (simp add: extract_text_def)
next
  assume "opened = Inl e0"
  then show "extract_text path_exists opened ocr = Inr ''''"
    by (simp add: extract_text_def)
next
  assume a: "path_exists \<and> opened = Inr img0
        \<and> part0 \<in> set (segment_letters_by_projection (trim_whitespace img0))
        \<and> ang0 \<in> set angles \<and> ocr part0 ang0 = Inl e1"
  then obtain e2 where "recognize_with_rotations ocr part0 = Inl e2"
    using recognize_raises_if[where ocr=ocr and img=part0 and ang=ang0] by blast
  then obtain e3
    where "parts_loop ocr (segment_letters_by_projection (trim_whitespace img0)) [] = Inl e3"
    using parts_loop_raises_if a by blast
  then show "\<exists>e. extract_text path_exists opened ocr = Inl e"
    using a by (simp add: extract_text_def)
next
  assume a: "extract_text path_exists opened ocr = Inl e"
  then obtain img where o: "opened = Inr img"
    and l: "parts_loop ocr (segment_letters_by_projection (trim_whitespace img)) [] = Inl e"
    by (cases opened) (auto simp: extract_text_def split: if_splits sum.splits)
  from parts_loop_raises[OF l] obtain part
    where p: "part \<in> set (segment_letters_by_projection (trim_whitespace img))"
      and r: "recognize_with_rotations ocr part = Inl e"
    by blast
  from recognize_raises[OF r] p o
  show "\<exists>img part. opened = Inr img
           \<and> part \<in> set (segment_letters_by_projection (trim_whitespace img))
           \<and> (\<exists>ang \<in> set angles. ocr part ang = Inl e)"
    by blast
next
  assume a: "\<forall>part. \<forall>ang \<in> set angles. \<exists>data. ocr part ang = Inr data"
  have t: "\<And>part. \<exists>r. recognize_with_rotations ocr part = Inr r"
    using a by (intro recognize_total) blast
  show "\<exists>s. extract_text path_exists opened ocr = Inr s"
  proof (cases opened)
    case (Inl x)
    then show ?thesis by (simp add: extract_text_def)
  next
    case (Inr img)
    from parts_loop_returns[of "segment_letters_by_projection (trim_whitespace img)" ocr "[]"] t
    obtain rs where "parts_loop ocr (segment_letters_by_projection (trim_whitespace img)) [] = Inr rs"
      by blast
    then show ?thesis using Inr by (simp add: extract_text_def)
  qed
qed

theorem extract_text_faults_witness:
  "extract_text False (Inr black5) ocr_fails = Inr ''''
   \<and> extract_text True (Inl OtherException) ocr_fails = Inr ''''
   \<and> black5 \<in> set (segment_letters_by_projection (trim_whitespace black5))
   \<and> ocr_then_fails black5 (- 15) = Inl TesseractError
   \<and> (\<exists>e. extract_text True (Inr black5) ocr_then_fails = Inl e)
   \<and> extract_text True (Inr black5) ocr_then_fails = Inl TesseractError
   \<and> (\<exists>s. extract_text True (Inr black5) ocr_ties = Inr s)
   \<and> extract_text True (Inr black5) ocr_ties = Inr ''D''"
proof -
  have a: "extract_text False (Inr black5) ocr_fails = Inr ''''"
    using extract_text_faults[of False "Inr black5" ocr_fails] by blast
  have b: "extract_text True (Inl OtherException) ocr_fails = Inr ''''"
    using extract_text_faults[of True "Inl OtherException" ocr_fails OtherException] by blast
  have d: "black5 \<in> set (segment_letters_by_projection (trim_whitespace black5))"
    by (simp add: trim_black5 segment_black5)
  have f: "ocr_then_fails black5 (- 15) = Inl TesseractError" by (simp add: ocr_then_fails_def)
  have m: "(- 15) \<in> set angles" by (simp add: angles_def)
  have x: "\<exists>e. extract_text True (Inr black5) ocr_then_fails = Inl e"
    using extract_text_faults[where path_exists=True and opened="Inr black5"
        and ocr=ocr_then_fails and ?img0.0=black5 and ?part0.0=black5 and ?ang0.0="- 15"
        and ?e1.0=TesseractError] d f m
    by blast
  have c: "extract_text True (Inr black5) ocr_then_fails = Inl TesseractError"
    by (simp add: extract_text_def trim_black5 segment_black5 recognize_with_rotations_def
        angles_def ocr_then_fails_def strip_def isspace_def)
  have h: "\<forall>part. \<forall>ang \<in> set angles. \<exists>data. ocr_ties part ang = Inr data"
    by (simp add: ocr_ties_def angles_def)
  have s: "\<exists>s. extract_text True (Inr black5) ocr_ties = Inr s"
    using extract_text_faults[of True "Inr black5" ocr_ties] h by blast
  have g: "extract_text True (Inr black5) ocr_ties = Inr ''D''"
    by (simp add: extract_text_def trim_black5 segment_black5 recognize_with_rotations_def
        angles_def ocr_ties_def no_data_def strip_def isspace_def assemble_def join_def
        replace_space_def)
  show ?thesis by (intro conjI a b d f x c s g)
qed

text \<open>
  C2 as stated fails for a fault of the recognition capability: on an image with one
  segment and a capability that raises, the exception leaves \<open>extract_text\<close>.
\<close>

theorem extract_text_raises_counterexample:
  "extract_text True (Inr black5) ocr_fails = Inl TesseractError"
  by (simp add: extract_text_def trim_black5 segment_black5 recognize_with_rotations_def
      angles_def ocr_fails_def)

section \<open>The projection segmenter\<close>

lemma seg_loop_boxes:
  "seg_loop img x cs (map (box_crop img) bs, st) =
     (case box_loop x cs (bs, st) of (bs', st') \<Rightarrow> (map (box_crop img) bs', st'))"
proof (induction cs arbitrary: x bs st)
  case Nil
  then show ?case by simp
next
  case (Cons c cs)
  show ?case
  proof (cases st)
    case None
    then show ?thesis using Cons[of "x + 1" bs "Some x"] Cons[of "x + 1" bs None] by simp
  next
    case (Some s)
    have "map (box_crop img) bs @ [crop img (s, 0, x, height img)] = map (box_crop img) (bs @ [(s, x)])"
      by simp
    then show ?thesis
      using Some Cons[of "x + 1" "bs @ [(s, x)]" None] Cons[of "x + 1" bs None]
        Cons[of "x + 1" bs "Some s"]
      by (simp del: crop.simps)
  qed
qed

lemma segment_as_boxes:
  "segment_letters_by_projection img = map (box_crop img) (segment_boxes (vsum img))"
proof -
  obtain bs st where b: "box_loop 0 (vsum img) ([], None) = (bs, st)"
    by (cases "box_loop 0 (vsum img) ([], None)")
  have "seg_loop img 0 (vsum img) ([], None) = (map (box_crop img) bs, st)"
    using seg_loop_boxes[of img 0 "vsum img" "[]" None] b by simp
  then show ?thesis
    using b by (cases st) (simp_all add: segment_letters_by_projection_def segment_boxes_def Let_def)
qed

lemma box_loop_acc:
  "box_loop x cs (bs, st) =
     (bs @ fst (box_loop x cs ([], st)), snd (box_loop x cs ([], st)))"
proof (induction cs arbitrary: x bs st)
  case Nil
  then show ?case by simp
next
  case (Cons c cs)
  show ?case
  proof (cases st)
    case None
    then show ?thesis using Cons[of "x + 1" bs] by simp
  next
    case (Some s)
    show ?thesis
      using Some Cons[of "x + 1" bs] Cons[of "x + 1" "bs @ [(s, x)]" None]
        Cons[of "x + 1" "[(s, x)]" None]
      by simp
  qed
qed

lemma segment_boxes_from: "segment_boxes v = boxes_from 0 v None"
  by (cases "snd (box_loop 0 v ([], None))")
     (auto simp: segment_boxes_def boxes_from_def split: prod.splits)

lemma boxes_from_Nil: "boxes_from x [] st = final_box x st"
  by (simp add: boxes_from_def)

lemma boxes_from_ink_None:
  "c > 0 \<Longrightarrow> boxes_from x (c # cs) None = boxes_from (Suc x) cs (Some x)"
  by (simp add: boxes_from_def)

lemma boxes_from_ink_Some:
  "c > 0 \<Longrightarrow> boxes_from x (c # cs) (Some s) = boxes_from (Suc x) cs (Some s)"
  by (simp add: boxes_from_def)

lemma boxes_from_gap_None:
  "boxes_from x (0 # cs) None = boxes_from (Suc x) cs None"
  by (simp add: boxes_from_def)

lemma boxes_from_gap_Some:
  "boxes_from x (0 # cs) (Some s) =
     (if x - s \<ge> 5 then [(s, x)] else []) @ boxes_from (Suc x) cs None"
  using box_loop_acc[of "Suc x" cs "[(s, x)]" None]
  by (simp add: boxes_from_def split: prod.splits)

lemma is_run_start_unique:
  assumes "is_run v s e" "is_run v s' e"
  shows "s = s'"
proof (rule ccontr)
  assume ne: "s \<noteq> s'"
  have aux: "\<And>a b. is_run v a e \<Longrightarrow> is_run v b e \<Longrightarrow> a < b \<Longrightarrow> False"
  proof -
    fix a b assume a: "is_run v a e" and b: "is_run v b e" and lt: "a < b"
    from b lt have "v ! (b - 1) = 0" by (auto simp: is_run_def)
    moreover from a b lt have "b - 1 \<in> {a..<e}" by (auto simp: is_run_def)
    with a have "v ! (b - 1) > 0" unfolding is_run_def by blast
    ultimately show False by simp
  qed
  from ne have "s < s' \<or> s' < s" by auto
  then show False using aux assms by blast
qed

lemma open_run_is_run_here:
  assumes "open_run pre (Some s0)" "cs = [] \<or> hd cs = 0"
  shows "is_run (pre @ cs) s0 (length pre)"
proof -
  from assms(1) have s: "s0 < length pre" and ink: "\<forall>i \<in> {s0..<length pre}. pre ! i > 0"
    and b: "s0 = 0 \<or> pre ! (s0 - 1) = 0"
    by (auto simp: open_run_def)
  have "\<forall>i \<in> {s0..<length pre}. (pre @ cs) ! i > 0" using ink by (simp add: nth_append)
  moreover have "s0 = 0 \<or> (pre @ cs) ! (s0 - 1) = 0" using b s by (auto simp: nth_append)
  moreover have "length pre = length (pre @ cs) \<or> (pre @ cs) ! length pre = 0"
    using assms(2) by (cases cs) auto
  ultimately show ?thesis using s by (simp add: is_run_def)
qed

lemma no_run_here_None:
  assumes "open_run pre None"
  shows "\<not> is_run (pre @ cs) s (length pre)"
proof
  assume r: "is_run (pre @ cs) s (length pre)"
  then have lt: "s < length pre" by (simp add: is_run_def)
  then have ne: "pre \<noteq> []" by auto
  from lt have "length pre - 1 \<in> {s..<length pre}" by auto
  with r have "(pre @ cs) ! (length pre - 1) > 0" unfolding is_run_def by blast
  then have "last pre > 0" using ne by (simp add: nth_append last_conv_nth)
  moreover from assms ne have "last pre = 0" by (simp add: open_run_def)
  ultimately show False by simp
qed

lemma no_run_here_ink:
  assumes "c > 0"
  shows "\<not> is_run (pre @ c # cs) s (length pre)"
  using assms by (auto simp: is_run_def)

lemma open_run_ink_None: "open_run pre None \<Longrightarrow> c > 0 \<Longrightarrow> open_run (pre @ [c]) (Some (length pre))"
  by (cases "pre = []") (auto simp: open_run_def nth_append last_conv_nth)

lemma open_run_ink_Some: "open_run pre (Some s) \<Longrightarrow> c > 0 \<Longrightarrow> open_run (pre @ [c]) (Some s)"
  by (auto simp: open_run_def nth_append)

lemma open_run_gap: "open_run (pre @ [0]) None"
  by (simp add: open_run_def)

lemma bound_step:
  "\<not> R x \<Longrightarrow> (R e \<and> P \<and> Suc x \<le> e) = (R e \<and> P \<and> x \<le> e)"
  by (cases "e = x") auto

lemma boxes_from_runs:
  "open_run pre st \<Longrightarrow>
     (s, e) \<in> set (boxes_from (length pre) cs st)
       \<longleftrightarrow> is_run (pre @ cs) s e \<and> 5 \<le> e - s \<and> length pre \<le> e"
proof (induction cs arbitrary: pre st)
  case Nil
  have top: "is_run pre s e \<Longrightarrow> length pre \<le> e \<Longrightarrow> e = length pre"
    by (simp add: is_run_def)
  show ?case
  proof (cases st)
    case None
    have n: "\<not> is_run pre s (length pre)"
      using no_run_here_None[of pre "[]" s] Nil None by simp
    have "\<not> (is_run pre s e \<and> 5 \<le> e - s \<and> length pre \<le> e)" using n top by blast
    then show ?thesis using None by (simp add: boxes_from_Nil)
  next
    case (Some s0)
    have r0: "is_run pre s0 (length pre)"
      using open_run_is_run_here[of pre s0 "[]"] Nil Some by simp
    show ?thesis
    proof (cases "(s, e) = (s0, length pre)")
      case True
      then show ?thesis using Some r0 by (simp add: boxes_from_Nil)
    next
      case False
      have "\<not> (is_run pre s e \<and> length pre \<le> e)"
      proof
        assume a: "is_run pre s e \<and> length pre \<le> e"
        then have "e = length pre" using top by blast
        moreover from this a have "s = s0" using r0 is_run_start_unique by blast
        ultimately show False using False by simp
      qed
      then show ?thesis using Some False by (auto simp: boxes_from_Nil)
    qed
  qed
next
  case (Cons c cs)
  let ?v = "pre @ c # cs"
  let ?x = "length pre"
  have IH: "\<And>st'. open_run (pre @ [c]) st' \<Longrightarrow>
      (s, e) \<in> set (boxes_from (Suc ?x) cs st') \<longleftrightarrow> is_run ?v s e \<and> 5 \<le> e - s \<and> Suc ?x \<le> e"
    using Cons.IH[of "pre @ [c]"] by simp
  show ?case
  proof (cases "c > 0")
    case True
    have nr: "\<not> is_run ?v s ?x" using no_run_here_ink[OF True] .
    show ?thesis
    proof (cases st)
      case None
      have o: "open_run (pre @ [c]) (Some ?x)"
        using open_run_ink_None Cons.prems None True by simp
      have "(s, e) \<in> set (boxes_from ?x (c # cs) st) \<longleftrightarrow> (s, e) \<in> set (boxes_from (Suc ?x) cs (Some ?x))"
        using None True by (simp add: boxes_from_ink_None)
      also have "\<dots> \<longleftrightarrow> is_run ?v s e \<and> 5 \<le> e - s \<and> Suc ?x \<le> e" by (rule IH[OF o])
      also have "\<dots> \<longleftrightarrow> is_run ?v s e \<and> 5 \<le> e - s \<and> ?x \<le> e"
        using nr by (rule bound_step)
      finally show ?thesis .
    next
      case (Some s0)
      have o: "open_run (pre @ [c]) (Some s0)"
        using open_run_ink_Some Cons.prems Some True by simp
      have "(s, e) \<in> set (boxes_from ?x (c # cs) st) \<longleftrightarrow> (s, e) \<in> set (boxes_from (Suc ?x) cs (Some s0))"
        using Some True by (simp add: boxes_from_ink_Some)
      also have "\<dots> \<longleftrightarrow> is_run ?v s e \<and> 5 \<le> e - s \<and> Suc ?x \<le> e" by (rule IH[OF o])
      also have "\<dots> \<longleftrightarrow> is_run ?v s e \<and> 5 \<le> e - s \<and> ?x \<le> e"
        using nr by (rule bound_step)
      finally show ?thesis .
    qed
  next
    case False
    then have c0: "c = 0" by simp
    have o: "open_run (pre @ [c]) None" using c0 open_run_gap by simp
    note ih = IH[OF o]
    show ?thesis
    proof (cases st)
      case None
      have nr: "\<not> is_run ?v s ?x" using no_run_here_None Cons.prems None by simp
      have "(s, e) \<in> set (boxes_from ?x (c # cs) st) \<longleftrightarrow> (s, e) \<in> set (boxes_from (Suc ?x) cs None)"
        using None c0 by (simp add: boxes_from_gap_None)
      also have "\<dots> \<longleftrightarrow> is_run ?v s e \<and> 5 \<le> e - s \<and> Suc ?x \<le> e" by (rule ih)
      also have "\<dots> \<longleftrightarrow> is_run ?v s e \<and> 5 \<le> e - s \<and> ?x \<le> e"
        using nr by (rule bound_step)
      finally show ?thesis .
    next
      case (Some s0)
      have r0: "is_run ?v s0 ?x"
        using open_run_is_run_here[of pre s0 "c # cs"] Cons.prems Some c0 by simp
      have m: "(s, e) \<in> set (boxes_from ?x (c # cs) st) \<longleftrightarrow>
                 ((s, e) = (s0, ?x) \<and> 5 \<le> ?x - s0) \<or> (s, e) \<in> set (boxes_from (Suc ?x) cs None)"
        using Some c0 by (simp add: boxes_from_gap_Some)
      show ?thesis
      proof (cases "e = ?x")
        case True
        have "\<not> (s, e) \<in> set (boxes_from (Suc ?x) cs None)" using ih True by simp
        moreover have "is_run ?v s ?x \<longleftrightarrow> s = s0" using r0 is_run_start_unique by blast
        ultimately show ?thesis using m True by auto
      next
        case False
        then have "(Suc ?x \<le> e) = (?x \<le> e)" by auto
        then show ?thesis using m ih False by simp
      qed
    qed
  qed
qed

lemma boxes_from_start_ge:
  "(case st of None \<Rightarrow> True | Some s0 \<Rightarrow> s0 \<le> x) \<Longrightarrow>
     \<forall>b \<in> set (boxes_from x cs st). (case st of None \<Rightarrow> x \<le> fst b | Some s0 \<Rightarrow> s0 \<le> fst b)"
proof (induction cs arbitrary: x st)
  case Nil
  then show ?case by (cases st) (auto simp: boxes_from_Nil)
next
  case (Cons c cs)
  show ?case
  proof (cases "c > 0")
    case True
    show ?thesis
    proof (cases st)
      case None
      then show ?thesis using True Cons.IH[where st="Some x" and x="Suc x"] by (simp add: boxes_from_ink_None)
    next
      case (Some s0)
      then show ?thesis using True Cons.IH[where st="Some s0" and x="Suc x"] Cons.prems
        by (simp add: boxes_from_ink_Some)
    qed
  next
    case False
    then have c0: "c = 0" by simp
    have r: "\<forall>b \<in> set (boxes_from (Suc x) cs None). Suc x \<le> fst b"
      using Cons.IH[where st=None and x="Suc x"] by simp
    show ?thesis
    proof (cases st)
      case None
      then show ?thesis using c0 r by (auto simp: boxes_from_gap_None)
    next
      case (Some s0)
      then have "s0 \<le> x" using Cons.prems by simp
      then show ?thesis using Some c0 r by (auto simp: boxes_from_gap_Some)
    qed
  qed
qed

lemma boxes_from_sorted:
  "sorted_wrt (\<lambda>a b. snd a < fst b) (boxes_from x cs st)"
proof (induction cs arbitrary: x st)
  case Nil
  then show ?case by (cases st) (auto simp: boxes_from_Nil)
next
  case (Cons c cs)
  show ?case
  proof (cases "c > 0")
    case True
    then show ?thesis using Cons.IH
      by (cases st) (simp_all add: boxes_from_ink_None boxes_from_ink_Some)
  next
    case False
    then have c0: "c = 0" by simp
    have r: "\<forall>b \<in> set (boxes_from (Suc x) cs None). Suc x \<le> fst b"
      using boxes_from_start_ge[where st=None and x="Suc x" and cs=cs] by simp
    show ?thesis
    proof (cases st)
      case None
      then show ?thesis using c0 Cons.IH by (simp add: boxes_from_gap_None)
    next
      case (Some s0)
      then show ?thesis using c0 Cons.IH[where st=None and x="Suc x"] r
        by (auto simp: boxes_from_gap_Some)
    qed
  qed
qed

lemma open_run_Nil: "open_run [] None"
  by (simp add: open_run_def)

lemma segment_boxes_runs:
  "(s, e) \<in> set (segment_boxes v) \<longleftrightarrow> is_run v s e \<and> 5 \<le> e - s"
  using boxes_from_runs[OF open_run_Nil, of s e v] by (simp add: segment_boxes_from)

lemma segment_boxes_sorted: "sorted_wrt (\<lambda>a b. snd a < fst b) (segment_boxes v)"
  by (simp add: segment_boxes_from boxes_from_sorted)

lemma length_vsum: "length (vsum img) = width img"
  by (simp add: vsum_def)

lemma vsum_ink:
  "x < width img \<Longrightarrow>
     vsum img ! x > 0 \<longleftrightarrow> (\<exists>y < height img. luma (pixels img ! y ! x) < 32)"
proof -
  assume x: "x < width img"
  have "vsum img ! x = length (filter (\<lambda>y. luma (pixels img ! y ! x) < 32) [0..<height img])"
    using x by (simp add: vsum_def)
  then have "vsum img ! x > 0 \<longleftrightarrow> filter (\<lambda>y. luma (pixels img ! y ! x) < 32) [0..<height img] \<noteq> []"
    by simp
  also have "\<dots> \<longleftrightarrow> (\<exists>y \<in> set [0..<height img]. luma (pixels img ! y ! x) < 32)"
    by (simp only: filter_empty_conv) blast
  finally show ?thesis by auto
qed

lemma box_crop_shape:
  "e \<le> width img \<Longrightarrow>
     width (box_crop img (s, e)) = e - s \<and> height (box_crop img (s, e)) = height img \<and>
     (\<forall>y < height img. \<forall>x < e - s. pixels (box_crop img (s, e)) ! y ! x = pixels img ! y ! (s + x))"
  by (auto simp: getpixel_def)

lemma upt_15: "[0..<15] = [0, 1, 2, 3, 4, 5, 6, 7, 8, 9, 10, 11, 12, 13, 14]"
  by (simp add: upt_rec[of _ "numeral _"])

lemma vsum_strip15: "vsum strip15 = [1, 1, 1, 1, 1, 0, 1, 1, 0, 1, 1, 1, 1, 1, 1]"
  by (simp add: vsum_def strip15_def upt_15 dark_def light_def)

lemma segment_boxes_strip15: "segment_boxes (vsum strip15) = [(0, 5), (9, 15)]"
  by (simp add: vsum_strip15 segment_boxes_def)

text \<open>
  C7. For every image the segmenter returns exactly the maximal runs of consecutive
  columns with a non-zero ink count whose width is at least 5, a run that reaches the last
  column included: the segments are the full-height crops, from the image itself, of the
  intervals \<open>segment_boxes\<close>; these intervals are exactly the maximal runs of width at
  least 5 and come in left-to-right order; a column has a non-zero count exactly when one
  of its pixels has a brightness below 32; and without such a run the result is the empty
  list.
\<close>

theorem segment_letters_are_wide_runs:
  "segment_letters_by_projection img = map (box_crop img) (segment_boxes (vsum img))
   \<and> set (segment_boxes (vsum img)) = {(s, e). is_run (vsum img) s e \<and> 5 \<le> e - s}
   \<and> sorted_wrt (\<lambda>a b. snd a < fst b) (segment_boxes (vsum img))
   \<and> length (vsum img) = width img
   \<and> (\<forall>x < width img. vsum img ! x > 0 \<longleftrightarrow> (\<exists>y < height img. luma (pixels img ! y ! x) < 32))
   \<and> (\<forall>(s, e) \<in> set (segment_boxes (vsum img)).
         width (box_crop img (s, e)) = e - s \<and> height (box_crop img (s, e)) = height img \<and>
         (\<forall>y < height img. \<forall>x < e - s.
            pixels (box_crop img (s, e)) ! y ! x = pixels img ! y ! (s + x)))
   \<and> ((\<forall>s e. \<not> (is_run (vsum img) s e \<and> 5 \<le> e - s)) \<longrightarrow>
         segment_letters_by_projection img = [])"
proof (intro conjI)
  show "segment_letters_by_projection img = map (box_crop img) (segment_boxes (vsum img))"
    by (rule segment_as_boxes)
  show r: "set (segment_boxes (vsum img)) = {(s, e). is_run (vsum img) s e \<and> 5 \<le> e - s}"
    using segment_boxes_runs[of _ _ "vsum img"] by auto
  show "sorted_wrt (\<lambda>a b. snd a < fst b) (segment_boxes (vsum img))"
    by (rule segment_boxes_sorted)
  show "length (vsum img) = width img" by (rule length_vsum)
  show "\<forall>x < width img. vsum img ! x > 0 \<longleftrightarrow> (\<exists>y < height img. luma (pixels img ! y ! x) < 32)"
    using vsum_ink by blast
  show "\<forall>(s, e) \<in> set (segment_boxes (vsum img)).
         width (box_crop img (s, e)) = e - s \<and> height (box_crop img (s, e)) = height img \<and>
         (\<forall>y < height img. \<forall>x < e - s.
            pixels (box_crop img (s, e)) ! y ! x = pixels img ! y ! (s + x))"
  proof (clarify)
    fix s e assume "(s, e) \<in> set (segment_boxes (vsum img))"
    then have "is_run (vsum img) s e" using segment_boxes_runs by blast
    then have "e \<le> width img" by (simp add: is_run_def length_vsum)
    then show "width (box_crop img (s, e)) = e - s \<and> height (box_crop img (s, e)) = height img \<and>
         (\<forall>y < height img. \<forall>x < e - s.
            pixels (box_crop img (s, e)) ! y ! x = pixels img ! y ! (s + x))"
      by (rule box_crop_shape)
  qed
  show "(\<forall>s e. \<not> (is_run (vsum img) s e \<and> 5 \<le> e - s)) \<longrightarrow>
         segment_letters_by_projection img = []"
  proof
    assume "\<forall>s e. \<not> (is_run (vsum img) s e \<and> 5 \<le> e - s)"
    then have "set (segment_boxes (vsum img)) = {}" using r by simp
    then show "segment_letters_by_projection img = []" by (simp add: segment_as_boxes)
  qed
qed

theorem segment_letters_are_wide_runs_witness:
  "vsum strip15 = [1, 1, 1, 1, 1, 0, 1, 1, 0, 1, 1, 1, 1, 1, 1]
   \<and> segment_boxes (vsum strip15) = [(0, 5), (9, 15)]
   \<and> segment_letters_by_projection strip15 =
        [\<lparr> width = 5, height = 1, pixels = [[dark, dark, dark, dark, dark]] \<rparr>,
         \<lparr> width = 6, height = 1, pixels = [[dark, dark, dark, dark, dark, dark]] \<rparr>]
   \<and> is_run (vsum strip15) 0 5 \<and> is_run (vsum strip15) 9 15
   \<and> \<not> (6, 8) \<in> set (segment_boxes (vsum strip15))
   \<and> segment_letters_by_projection black5 = [black5]
   \<and> segment_letters_by_projection \<lparr> width = 2, height = 1, pixels = [[light, dark]] \<rparr> = []"
proof -
  note t = segment_letters_are_wide_runs[of strip15]
  have b: "segment_boxes (vsum strip15) = [(0, 5), (9, 15)]" by (rule segment_boxes_strip15)
  have "set (segment_boxes (vsum strip15)) = {(s, e). is_run (vsum strip15) s e \<and> 5 \<le> e - s}"
    using t by blast
  then have m: "{(0, 5), (9, 15)} = {(s, e). is_run (vsum strip15) s e \<and> 5 \<le> e - s}"
    unfolding b by simp
  have r1: "is_run (vsum strip15) 0 5" using m by blast
  have r2: "is_run (vsum strip15) 9 15" using m by blast
  have c: "segment_letters_by_projection strip15 = map (box_crop strip15) (segment_boxes (vsum strip15))"
    using t by blast
  have c': "segment_letters_by_projection strip15 =
        [\<lparr> width = 5, height = 1, pixels = [[dark, dark, dark, dark, dark]] \<rparr>,
         \<lparr> width = 6, height = 1, pixels = [[dark, dark, dark, dark, dark, dark]] \<rparr>]"
    unfolding c b
    by (simp add: strip15_def getpixel_def upt_rec[of _ "numeral _"] upt_rec[of 0 1])
  have n: "\<not> (6, 8) \<in> set (segment_boxes (vsum strip15))" unfolding b by simp
  have e: "segment_letters_by_projection \<lparr> width = 2, height = 1, pixels = [[light, dark]] \<rparr> = []"
    by (simp add: segment_letters_by_projection_def vsum_def upt_rec[of _ "numeral _"]
        dark_def light_def)
  show ?thesis by (intro conjI vsum_strip15 b c' r1 r2 n segment_black5 e)
qed

text \<open>
  C10. The column intervals of the segments returned are non-empty, lie inside the image,
  are pairwise disjoint and increasing (each start is at least the end of every earlier
  interval), and two consecutive ones are separated by a column with zero ink count: the
  end column of the earlier one has count zero and lies strictly before the next start.
\<close>

theorem segment_intervals_disjoint_increasing:
  "segment_letters_by_projection img = map (box_crop img) (segment_boxes (vsum img))
   \<and> (\<forall>b \<in> set (segment_boxes (vsum img)). fst b < snd b \<and> snd b \<le> width img)
   \<and> sorted_wrt (\<lambda>a b. snd a \<le> fst b) (segment_boxes (vsum img))
   \<and> (\<forall>i. Suc i < length (segment_boxes (vsum img)) \<longrightarrow>
         snd (segment_boxes (vsum img) ! i) < fst (segment_boxes (vsum img) ! Suc i)
         \<and> vsum img ! snd (segment_boxes (vsum img) ! i) = 0)"
proof (intro conjI allI impI ballI)
  let ?bs = "segment_boxes (vsum img)"
  show "segment_letters_by_projection img = map (box_crop img) ?bs"
    by (rule segment_as_boxes)
  have srt: "sorted_wrt (\<lambda>a b. snd a < fst b) ?bs" by (rule segment_boxes_sorted)
  then show "sorted_wrt (\<lambda>a b. snd a \<le> fst b) ?bs"
    by (rule sorted_wrt_mono_rel[rotated]) simp
  have run: "\<And>b. b \<in> set ?bs \<Longrightarrow> is_run (vsum img) (fst b) (snd b)"
    using segment_boxes_runs[of _ _ "vsum img"] by (metis prod.collapse)
  {
    fix b assume "b \<in> set ?bs"
    from run[OF this] show "fst b < snd b" by (simp add: is_run_def)
    from run[OF \<open>b \<in> set ?bs\<close>] show "snd b \<le> width img" by (simp add: is_run_def length_vsum)
  }
  {
    fix i assume i: "Suc i < length ?bs"
    show lt: "snd (?bs ! i) < fst (?bs ! Suc i)"
      using sorted_wrt_nth_less[OF srt, of i "Suc i"] i by simp
    have r1: "is_run (vsum img) (fst (?bs ! i)) (snd (?bs ! i))" using run i by simp
    have r2: "is_run (vsum img) (fst (?bs ! Suc i)) (snd (?bs ! Suc i))" using run i by simp
    from r2 lt have "snd (?bs ! i) < length (vsum img)" by (simp add: is_run_def)
    with r1 show "vsum img ! snd (?bs ! i) = 0" by (simp add: is_run_def)
  }
qed

theorem segment_intervals_disjoint_increasing_witness:
  "segment_boxes (vsum strip15) = [(0, 5), (9, 15)]
   \<and> Suc 0 < length (segment_boxes (vsum strip15))
   \<and> snd (segment_boxes (vsum strip15) ! 0) < fst (segment_boxes (vsum strip15) ! Suc 0)
   \<and> vsum strip15 ! 5 = 0"
proof -
  have b: "segment_boxes (vsum strip15) = [(0, 5), (9, 15)]" by (rule segment_boxes_strip15)
  then have l: "Suc 0 < length (segment_boxes (vsum strip15))" by simp
  from segment_intervals_disjoint_increasing[of strip15] l
  have "snd (segment_boxes (vsum strip15) ! 0) < fst (segment_boxes (vsum strip15) ! Suc 0)
         \<and> vsum strip15 ! snd (segment_boxes (vsum strip15) ! 0) = 0"
    by blast
  then show ?thesis using b l by simp
qed

section \<open>The bounding-box trimmer\<close>

lemma sorted_hd_le: "sorted xs \<Longrightarrow> (x::nat) \<in> set xs \<Longrightarrow> hd xs \<le> x"
  by (cases xs) auto

lemma sorted_le_last: "sorted xs \<Longrightarrow> (x::nat) \<in> set xs \<Longrightarrow> x \<le> last xs"
  by (induction xs) (auto split: if_splits)

lemma filter_upt_bounds:
  assumes "x < n" "P x"
  shows "hd (filter P [0..<n]) \<le> x \<and> x \<le> last (filter P [0..<n])"
proof -
  have s: "sorted (filter P [0..<n])" by (simp add: sorted_wrt_filter)
  have m: "x \<in> set (filter P [0..<n])" using assms by simp
  show ?thesis using sorted_hd_le[OF s m] sorted_le_last[OF s m] by simp
qed

lemma filter_upt_hd:
  assumes "filter P [0..<n] \<noteq> []"
  shows "P (hd (filter P [0..<n])) \<and> hd (filter P [0..<n]) < n"
proof -
  have "hd (filter P [0..<n]) \<in> set (filter P [0..<n])" using assms by (rule hd_in_set)
  then show ?thesis by simp
qed

lemma filter_upt_last:
  assumes "filter P [0..<n] \<noteq> []"
  shows "P (last (filter P [0..<n])) \<and> last (filter P [0..<n]) < n"
proof -
  have "last (filter P [0..<n]) \<in> set (filter P [0..<n])" using assms by (rule last_in_set)
  then show ?thesis by simp
qed

lemma filter_upt_hd_0: "0 < n \<Longrightarrow> P 0 \<Longrightarrow> hd (filter P [0..<n]) = 0"
  by (simp add: upt_conv_Cons)

lemma filter_upt_last_top: "0 < n \<Longrightarrow> P (n - 1) \<Longrightarrow> last (filter P [0..<n]) = n - 1"
proof -
  assume n: "0 < n" and p: "P (n - 1)"
  then have "[0..<n] = [0..<n - 1] @ [n - 1]"
    by (metis Suc_diff_1 upt_Suc_append zero_le)
  then have "filter P [0..<n] = filter P [0..<n - 1] @ [n - 1]" using p by simp
  then show ?thesis by simp
qed

lemma row_nonwhite_iff: "row_nonwhite img y \<longleftrightarrow> (\<exists>x < width img. \<not> is_white img y x)"
  by (auto simp: row_nonwhite_def list_all_iff)

lemma col_nonwhite_iff: "col_nonwhite img x \<longleftrightarrow> (\<exists>y < height img. \<not> is_white img y x)"
  by (auto simp: col_nonwhite_def list_all_iff)

lemma nonwhite_rows_alt: "nonwhite_rows img = filter (row_nonwhite img) [0..<height img]"
  unfolding nonwhite_rows_def by (rule filter_cong) (simp_all add: row_nonwhite_def)

lemma nonwhite_cols_alt: "nonwhite_cols img = filter (col_nonwhite img) [0..<width img]"
  unfolding nonwhite_cols_def by (rule filter_cong) (simp_all add: col_nonwhite_def)

lemma crop_whole:
  assumes "wf_image img"
  shows "crop img (0, 0, width img, height img) = img"
proof -
  have len: "length (pixels img) = height img" using assms by (simp add: wf_image_def)
  have row: "\<And>y. y < height img \<Longrightarrow> length (pixels img ! y) = width img"
    using assms by (simp add: wf_image_def list_all_length)
  have "map (\<lambda>y. map (\<lambda>x. getpixel img x y) [0..<width img]) [0..<height img] = pixels img"
  proof (rule nth_equalityI)
    show "length (map (\<lambda>y. map (\<lambda>x. getpixel img x y) [0..<width img]) [0..<height img])
            = length (pixels img)"
      using len by simp
  next
    fix y assume "y < length (map (\<lambda>y. map (\<lambda>x. getpixel img x y) [0..<width img]) [0..<height img])"
    then have y: "y < height img" by simp
    have "map (\<lambda>x. getpixel img x y) [0..<width img] = pixels img ! y"
      using y row[OF y] by (intro nth_equalityI) (simp_all add: getpixel_def)
    then show "map (\<lambda>y. map (\<lambda>x. getpixel img x y) [0..<width img]) [0..<height img] ! y
                 = pixels img ! y"
      using y by simp
  qed
  then show ?thesis by simp
qed

lemma trim_no_border:
  assumes "wf_image img" "no_white_border img"
  shows "trim_whitespace img = img"
proof -
  from assms(2) have w: "0 < width img" and h: "0 < height img"
    and r0: "row_nonwhite img 0" and r1: "row_nonwhite img (height img - 1)"
    and c0: "col_nonwhite img 0" and c1: "col_nonwhite img (width img - 1)"
    by (simp_all add: no_white_border_def)
  have rne: "nonwhite_rows img \<noteq> []"
    using h r0 by (auto simp: nonwhite_rows_alt filter_empty_conv)
  have cne: "nonwhite_cols img \<noteq> []"
    using w c0 by (auto simp: nonwhite_cols_alt filter_empty_conv)
  have "hd (nonwhite_rows img) = 0" "last (nonwhite_rows img) + 1 = height img"
    "hd (nonwhite_cols img) = 0" "last (nonwhite_cols img) + 1 = width img"
    using w h r0 r1 c0 c1
    by (simp_all add: nonwhite_rows_alt nonwhite_cols_alt filter_upt_hd_0 filter_upt_last_top)
  then show ?thesis
    using rne cne crop_whole[OF assms(1)]
    by (simp add: trim_whitespace_def Let_def del: crop.simps)
qed

lemma wf_crop: "wf_image (crop img box)"
  by (cases box) (simp add: wf_image_def list_all_iff)

lemma crop_is_white:
  assumes "r \<le> width img" "b \<le> height img" "y < b - t" "x < r - l"
  shows "is_white (crop img (l, t, r, b)) y x = is_white img (t + y) (l + x)"
  using assms by (auto simp: is_white_def getpixel_def)

lemma crop_row_nonwhite:
  assumes "r \<le> width img" "b \<le> height img" "t \<le> y" "y < b"
    and "\<exists>x. l \<le> x \<and> x < r \<and> \<not> is_white img y x"
  shows "row_nonwhite (crop img (l, t, r, b)) (y - t)"
proof -
  from assms(5) obtain x where x: "l \<le> x" "x < r" "\<not> is_white img y x" by blast
  have "\<not> is_white (crop img (l, t, r, b)) (y - t) (x - l)"
    using crop_is_white[OF assms(1,2), of "y - t" t "x - l" l] assms(3,4) x by simp
  moreover have "x - l < width (crop img (l, t, r, b))" using x by simp
  ultimately show ?thesis unfolding row_nonwhite_iff by blast
qed

lemma crop_col_nonwhite:
  assumes "r \<le> width img" "b \<le> height img" "l \<le> x" "x < r"
    and "\<exists>y. t \<le> y \<and> y < b \<and> \<not> is_white img y x"
  shows "col_nonwhite (crop img (l, t, r, b)) (x - l)"
proof -
  from assms(5) obtain y where y: "t \<le> y" "y < b" "\<not> is_white img y x" by blast
  have "\<not> is_white (crop img (l, t, r, b)) (y - t) (x - l)"
    using crop_is_white[OF assms(1,2), of "y - t" t "x - l" l] assms(3,4) y by simp
  moreover have "y - t < height (crop img (l, t, r, b))" using y by simp
  ultimately show ?thesis unfolding col_nonwhite_iff by blast
qed

lemma trimmed_no_border:
  assumes rne: "nonwhite_rows img \<noteq> []" and cne: "nonwhite_cols img \<noteq> []"
  defines "t \<equiv> hd (nonwhite_rows img)" and "b \<equiv> last (nonwhite_rows img) + 1"
    and "l \<equiv> hd (nonwhite_cols img)" and "r \<equiv> last (nonwhite_cols img) + 1"
  shows "no_white_border (crop img (l, t, r, b))"
proof -
  let ?R = "row_nonwhite img" and ?C = "col_nonwhite img"
  have rows: "nonwhite_rows img = filter ?R [0..<height img]" by (rule nonwhite_rows_alt)
  have cols: "nonwhite_cols img = filter ?C [0..<width img]" by (rule nonwhite_cols_alt)
  have t: "?R t" "t < height img"
    using filter_upt_hd[of ?R "height img"] rne unfolding t_def rows by simp_all
  have b: "?R (b - 1)" "b \<le> height img"
    using filter_upt_last[of ?R "height img"] rne unfolding b_def rows by simp_all
  have l: "?C l" "l < width img"
    using filter_upt_hd[of ?C "width img"] cne unfolding l_def cols by simp_all
  have r: "?C (r - 1)" "r \<le> width img"
    using filter_upt_last[of ?C "width img"] cne unfolding r_def cols by simp_all
  have rb: "\<And>y. y < height img \<Longrightarrow> ?R y \<Longrightarrow> t \<le> y \<and> y < b"
    using filter_upt_bounds[of _ "height img" ?R] unfolding t_def b_def rows by fastforce
  have cb: "\<And>x. x < width img \<Longrightarrow> ?C x \<Longrightarrow> l \<le> x \<and> x < r"
    using filter_upt_bounds[of _ "width img" ?C] unfolding l_def r_def cols by fastforce
  have tb: "t < b" using rb[OF t(2) t(1)] by simp
  have lr: "l < r" using cb[OF l(2) l(1)] by simp
  have b1: "b - 1 < height img" "t \<le> b - 1" "b - 1 < b" using b(2) tb by auto
  have r1: "r - 1 < width img" "l \<le> r - 1" "r - 1 < r" using r(2) lr by auto
  have inrow: "\<And>y. y < height img \<Longrightarrow> ?R y \<Longrightarrow> \<exists>x. l \<le> x \<and> x < r \<and> \<not> is_white img y x"
  proof -
    fix y assume y: "y < height img" and "?R y"
    then obtain x where x: "x < width img" "\<not> is_white img y x"
      unfolding row_nonwhite_iff by blast
    then have "?C x" unfolding col_nonwhite_iff using y by blast
    then show "\<exists>x. l \<le> x \<and> x < r \<and> \<not> is_white img y x" using cb x by blast
  qed
  have incol: "\<And>x. x < width img \<Longrightarrow> ?C x \<Longrightarrow> \<exists>y. t \<le> y \<and> y < b \<and> \<not> is_white img y x"
  proof -
    fix x assume x: "x < width img" and "?C x"
    then obtain y where y: "y < height img" "\<not> is_white img y x"
      unfolding col_nonwhite_iff by blast
    then have "?R y" unfolding row_nonwhite_iff using x by blast
    then show "\<exists>y. t \<le> y \<and> y < b \<and> \<not> is_white img y x" using rb y by blast
  qed
  let ?c = "crop img (l, t, r, b)"
  have w: "width ?c = r - l" and h: "height ?c = b - t" by simp_all
  have "row_nonwhite ?c (t - t)"
    using crop_row_nonwhite[OF r(2) b(2) le_refl tb inrow[OF t(2) t(1)]] by simp
  then have A: "row_nonwhite ?c 0" by simp
  have "row_nonwhite ?c (b - 1 - t)"
    using crop_row_nonwhite[OF r(2) b(2) b1(2) b1(3) inrow[OF b1(1) b(1)]] .
  then have B: "row_nonwhite ?c (height ?c - 1)" by (simp add: h)
  have "col_nonwhite ?c (l - l)"
    using crop_col_nonwhite[OF r(2) b(2) le_refl lr incol[OF l(2) l(1)]] by simp
  then have C: "col_nonwhite ?c 0" by simp
  have "col_nonwhite ?c (r - 1 - l)"
    using crop_col_nonwhite[OF r(2) b(2) r1(2) r1(3) incol[OF r1(1) r(1)]] .
  then have D: "col_nonwhite ?c (width ?c - 1)" by (simp add: w)
  show ?thesis
    unfolding no_white_border_def using A B C D tb lr w h by (simp del: crop.simps)
qed

lemma trim_cases:
  "trim_whitespace img =
     (if nonwhite_rows img = [] \<or> nonwhite_cols img = [] then img
      else crop img (hd (nonwhite_cols img), hd (nonwhite_rows img),
                     last (nonwhite_cols img) + 1, last (nonwhite_rows img) + 1))"
  by (simp add: trim_whitespace_def Let_def del: crop.simps)

lemma trim_trim:
  assumes "wf_image img"
  shows "trim_whitespace (trim_whitespace img) = trim_whitespace img"
proof (cases "nonwhite_rows img = [] \<or> nonwhite_cols img = []")
  case True
  then show ?thesis by (simp add: trim_cases del: crop.simps)
next
  case False
  let ?c = "crop img (hd (nonwhite_cols img), hd (nonwhite_rows img),
                     last (nonwhite_cols img) + 1, last (nonwhite_rows img) + 1)"
  have c: "trim_whitespace img = ?c" using False by (simp add: trim_cases del: crop.simps)
  have "no_white_border ?c" using trimmed_no_border False by blast
  then have "trim_whitespace ?c = ?c" using trim_no_border wf_crop by blast
  then show ?thesis using c by simp
qed

lemma trim_all_white:
  assumes "\<forall>y < height img. \<forall>x < width img. is_white img y x"
  shows "trim_whitespace img = img"
proof -
  have "\<And>y. y < height img \<Longrightarrow> \<not> row_nonwhite img y"
    using assms by (simp add: row_nonwhite_iff)
  then have "nonwhite_rows img = []" by (simp add: nonwhite_rows_alt filter_empty_conv)
  then show ?thesis by (simp add: trim_cases del: crop.simps)
qed

lemma upt_small:
  "[0..<1] = [0]" "[0..<2] = [0, 1]" "[0..<3] = [0, 1, 2]" "[0..<4] = [0, 1, 2, 3]"
  "[0..<5] = [0, 1, 2, 3, 4]"
  by (simp_all add: upt_rec[of _ "numeral _"] upt_rec[of 0 1])

lemma trim_framed:
  "trim_whitespace framed = \<lparr> width = 2, height = 1, pixels = [[(0, 0, 0), (255, 255, 254)]] \<rparr>"
  by (simp add: trim_whitespace_def nonwhite_rows_def nonwhite_cols_def framed_def white_def
      is_white_def getpixel_def upt_small)

text \<open>
  C8. The trimmer is idempotent: for every image (a well-formed grid of its stated size)
  trimming the result of trimming equals trimming once; an image with no pure-white
  border row or column is returned identical in pixels and size; and an image whose
  pixels are all white (all three channels 255) is returned unchanged.
\<close>

theorem trim_whitespace_idempotent:
  assumes "wf_image img"
  shows "trim_whitespace (trim_whitespace img) = trim_whitespace img
         \<and> (no_white_border img \<longrightarrow> trim_whitespace img = img)
         \<and> ((\<forall>y < height img. \<forall>x < width img. pixels img ! y ! x = (255, 255, 255)) \<longrightarrow>
               trim_whitespace img = img)"
proof (intro conjI impI)
  show "trim_whitespace (trim_whitespace img) = trim_whitespace img"
    using assms by (rule trim_trim)
  show "no_white_border img \<Longrightarrow> trim_whitespace img = img"
    using assms by (rule trim_no_border)
  show "\<forall>y < height img. \<forall>x < width img. pixels img ! y ! x = (255, 255, 255) \<Longrightarrow>
          trim_whitespace img = img"
    by (rule trim_all_white) (simp add: is_white_def)
qed

theorem trim_whitespace_idempotent_witness:
  "wf_image framed
   \<and> trim_whitespace framed = \<lparr> width = 2, height = 1, pixels = [[(0, 0, 0), (255, 255, 254)]] \<rparr>
   \<and> trim_whitespace (trim_whitespace framed) = trim_whitespace framed
   \<and> wf_image black5 \<and> no_white_border black5 \<and> trim_whitespace black5 = black5
   \<and> wf_image white2 \<and> trim_whitespace white2 = white2"
proof -
  have w1: "wf_image framed" by (simp add: wf_image_def framed_def)
  have w2: "wf_image black5" by (simp add: wf_image_def black5_def)
  have w3: "wf_image white2" by (simp add: wf_image_def white2_def)
  have n: "no_white_border black5"
    by (simp add: no_white_border_def row_nonwhite_def col_nonwhite_def black5_def
        is_white_def upt_small)
  have a: "\<forall>y < height white2. \<forall>x < width white2. pixels white2 ! y ! x = (255, 255, 255)"
    by (simp add: white2_def white_def less_Suc_eq numeral_2_eq_2)
  have i: "trim_whitespace (trim_whitespace framed) = trim_whitespace framed"
    using trim_whitespace_idempotent[OF w1] by blast
  have b: "trim_whitespace black5 = black5"
    using trim_whitespace_idempotent[OF w2] n by blast
  have c: "trim_whitespace white2 = white2"
    using trim_whitespace_idempotent[OF w3] a by blast
  show ?thesis by (intro conjI w1 trim_framed i w2 n b w3 c)
qed

end
